theory Spec2Isabelle
  imports
    Main
    "HOL-Library.Sublist"
    "HOL-Library.Multiset"
    "HOL-Library.Char_ord"
    "HOL-Library.List_Lexorder"
    "HOL-Library.Product_Lexorder"
begin

chapter \<open>ssh-menu: configuration parser, host registry and selector\<close>

text \<open>
  A shallow embedding of the Go sources of ssh-menu. Go strings are byte sequences and
  are modelled as \<^typ>\<open>string\<close> (lists of 8-bit characters); Go's \<open>int\<close> is modelled as
  \<^typ>\<open>int\<close>, with the 64-bit range written out where a value is parsed from text.
  Every \<open>os.Exit\<close>, returned \<open>error\<close> and index panic of the source is a value of a
  sum type.
\<close>

section \<open>The Go standard library functions the program calls\<close>

subsection \<open>Characters\<close>

text \<open>The regular expression class \<open>\s\<close> of Go's regexp package is \<open>[\t\n\f\r ]\<close>.\<close>

definition re_space :: "char \<Rightarrow> bool" where
  "re_space c = (of_char c \<in> {9, 10, 12, 13, 32 :: nat})"

text \<open>The class \<open>\d\<close> is \<open>[0-9]\<close>.\<close>

definition re_digit :: "char \<Rightarrow> bool" where
  "re_digit c = (48 \<le> (of_char c :: nat) \<and> (of_char c :: nat) \<le> 57)"

subsection \<open>strings.TrimSpace\<close>

text \<open>
  \<open>strings.TrimSpace\<close> removes leading and trailing white space as Unicode defines it.
  On the UTF-8 bytes of a Go string these are the six ASCII characters tab, line feed,
  vertical tab, form feed, carriage return and space, and the encodings of U+0085,
  U+00A0, U+1680, U+2000 to U+200A, U+2028, U+2029, U+202F, U+205F and U+3000.
\<close>

definition space_encodings :: "string list" where
  "space_encodings =
     [[CHR 0x09], [CHR 0x0A], [CHR 0x0B], [CHR 0x0C], [CHR 0x0D], [CHR 0x20],
      [CHR 0xC2, CHR 0x85], [CHR 0xC2, CHR 0xA0], [CHR 0xE1, CHR 0x9A, CHR 0x80],
      [CHR 0xE2, CHR 0x80, CHR 0x80], [CHR 0xE2, CHR 0x80, CHR 0x81],
      [CHR 0xE2, CHR 0x80, CHR 0x82], [CHR 0xE2, CHR 0x80, CHR 0x83],
      [CHR 0xE2, CHR 0x80, CHR 0x84], [CHR 0xE2, CHR 0x80, CHR 0x85],
      [CHR 0xE2, CHR 0x80, CHR 0x86], [CHR 0xE2, CHR 0x80, CHR 0x87],
      [CHR 0xE2, CHR 0x80, CHR 0x88], [CHR 0xE2, CHR 0x80, CHR 0x89],
      [CHR 0xE2, CHR 0x80, CHR 0x8A], [CHR 0xE2, CHR 0x80, CHR 0xA8],
      [CHR 0xE2, CHR 0x80, CHR 0xA9], [CHR 0xE2, CHR 0x80, CHR 0xAF],
      [CHR 0xE2, CHR 0x81, CHR 0x9F], [CHR 0xE3, CHR 0x80, CHR 0x80]]"

text \<open>The number of bytes of the white-space rune a string starts with, 0 when there is none.\<close>

definition leading_space :: "string list \<Rightarrow> string \<Rightarrow> nat" where
  "leading_space encs s = (case find (\<lambda>e. e \<noteq> [] \<and> prefix e s) encs of None \<Rightarrow> 0 | Some e \<Rightarrow> length e)"

lemma leading_space_le: "leading_space encs s \<le> length s"
  by (auto simp: leading_space_def find_Some_iff prefix_def split: option.splits)

lemma leading_space_Nil: "leading_space encs [] = 0"
  using leading_space_le [of encs "[]"] by simp

function TrimLeft :: "string list \<Rightarrow> string \<Rightarrow> string" where
  "TrimLeft encs s = (if leading_space encs s = 0 then s else TrimLeft encs (drop (leading_space encs s) s))"
  by pat_completeness auto
termination
proof (relation "measure (\<lambda>(encs, s). length s)")
  show "wf (measure (\<lambda>(encs, s). length s))" by simp
next
  fix encs :: "string list" and s :: string
  assume "leading_space encs s \<noteq> 0"
  then have "s \<noteq> []" using leading_space_Nil by metis
  with \<open>leading_space encs s \<noteq> 0\<close>
  show "((encs, drop (leading_space encs s) s), (encs, s)) \<in> measure (\<lambda>(encs, s). length s)"
    by simp
qed

declare TrimLeft.simps [simp del]

definition TrimSpace :: "string \<Rightarrow> string" where
  "TrimSpace s = rev (TrimLeft (map rev space_encodings) (rev (TrimLeft space_encodings s)))"

subsection \<open>strconv.Atoi and the verb \<open>%d\<close>\<close>

text \<open>
  \<open>strconv.Atoi\<close> accepts an optional sign followed by one or more decimal digits and
  fails on anything else, and on a value outside the range of \<open>int\<close> (64 bits on the
  platforms the program is released for).
\<close>

definition digits_value :: "string \<Rightarrow> int" where
  "digits_value ds = foldl (\<lambda>a c. 10 * a + (of_char c - 48)) 0 ds"

definition Atoi :: "string \<Rightarrow> int option" where
  "Atoi s =
     (let neg = (s \<noteq> [] \<and> hd s = CHR ''-'');
          ds = (if s \<noteq> [] \<and> (hd s = CHR ''+'' \<or> hd s = CHR ''-'') then tl s else s)
      in if ds = [] then None
         else if list_ex (\<lambda>c. \<not> re_digit c) ds then None
         else let v = (if neg then - digits_value ds else digits_value ds)
              in if v < - (2 ^ 63) \<or> 2 ^ 63 - 1 < v then None else Some v)"

fun nat_digits :: "nat \<Rightarrow> string" where
  "nat_digits n =
     (if n < 10 then [''0123456789'' ! n]
      else nat_digits (n div 10) @ [''0123456789'' ! (n mod 10)])"

declare nat_digits.simps [simp del]

text \<open>\<open>fmt.Sprintf("%d", n)\<close>.\<close>

definition Sprintf_d :: "int \<Rightarrow> string" where
  "Sprintf_d n = (if n < 0 then CHR ''-'' # nat_digits (nat (- n)) else nat_digits (nat n))"

subsection \<open>UTF-8: the runes of a string\<close>

text \<open>
  A Go string is a sequence of bytes. A \<open>range\<close> loop over it, and every function of
  package \<open>strings\<close> that works on characters, reads it as a sequence of runes (code
  points, \<open>int32\<close>): \<open>utf8.DecodeRuneInString\<close> takes the longest valid UTF-8 encoding
  at the front, and a byte that starts none counts as the rune \<open>U+FFFD\<close> of width 1.
\<close>

type_synonym rune = int

definition RuneError :: rune where
  "RuneError = 0xFFFD"

text \<open>
  The table \<open>first\<close> of package \<open>utf8\<close> with its \<open>acceptRanges\<close>: for a leading byte,
  the length of the encoding and the bounds of the second byte; \<open>None\<close> for a byte that
  leads no encoding.
\<close>

definition acceptRange :: "int \<Rightarrow> (nat \<times> int \<times> int) option" where
  "acceptRange s0 =
     (if 0xC2 \<le> s0 \<and> s0 \<le> 0xDF then Some (2, 0x80, 0xBF)
      else if s0 = 0xE0 then Some (3, 0xA0, 0xBF)
      else if 0xE1 \<le> s0 \<and> s0 \<le> 0xEC then Some (3, 0x80, 0xBF)
      else if s0 = 0xED then Some (3, 0x80, 0x9F)
      else if 0xEE \<le> s0 \<and> s0 \<le> 0xEF then Some (3, 0x80, 0xBF)
      else if s0 = 0xF0 then Some (4, 0x90, 0xBF)
      else if 0xF1 \<le> s0 \<and> s0 \<le> 0xF3 then Some (4, 0x80, 0xBF)
      else if s0 = 0xF4 then Some (4, 0x80, 0x8F)
      else None)"

text \<open>
  \<open>utf8.DecodeRuneInString\<close>: the first rune and its width in bytes. The masks of the
  source (\<open>s0 & mask2\<close>, \<open>s1 & maskx\<close>, ...) are remainders, the shifts are products.
\<close>

fun DecodeRuneInString :: "string \<Rightarrow> rune \<times> nat" where
  "DecodeRuneInString [] = (RuneError, 0)"
| "DecodeRuneInString (c0 # cs) =
     (let s0 = (of_char c0 :: int)
      in if s0 < 0x80 then (s0, 1)
         else
           (case acceptRange s0 of
              None \<Rightarrow> (RuneError, 1)
            | Some (sz, lo, hi) \<Rightarrow>
                (if Suc (length cs) < sz then (RuneError, 1)
                 else
                   (let s1 = (of_char (cs ! 0) :: int)
                    in if s1 < lo \<or> hi < s1 then (RuneError, 1)
                       else if sz \<le> 2 then (s0 mod 32 * 64 + s1 mod 64, 2)
                       else
                         (let s2 = (of_char (cs ! 1) :: int)
                          in if s2 < 0x80 \<or> 0xBF < s2 then (RuneError, 1)
                             else if sz \<le> 3 then
                               (s0 mod 16 * 4096 + s1 mod 64 * 64 + s2 mod 64, 3)
                             else
                               (let s3 = (of_char (cs ! 2) :: int)
                                in if s3 < 0x80 \<or> 0xBF < s3 then (RuneError, 1)
                                   else
                                     (s0 mod 8 * 262144 + s1 mod 64 * 4096
                                      + s2 mod 64 * 64 + s3 mod 64, 4)))))))"

declare DecodeRuneInString.simps(2) [simp del]

lemma DecodeRuneInString_width:
  "s \<noteq> [] \<Longrightarrow> 1 \<le> snd (DecodeRuneInString s) \<and> snd (DecodeRuneInString s) \<le> 4"
  by (cases s) (auto simp: DecodeRuneInString.simps(2) Let_def split: option.splits)

text \<open>The runes a \<open>range\<close> loop over the string yields.\<close>

function runes :: "string \<Rightarrow> rune list" where
  "runes s =
     (if s = [] then []
      else fst (DecodeRuneInString s) # runes (drop (snd (DecodeRuneInString s)) s))"
  by pat_completeness auto
termination
proof (relation "measure length")
  show "wf (measure length)" by simp
next
  fix s :: string
  assume "s \<noteq> []"
  then show "(drop (snd (DecodeRuneInString s)) s, s) \<in> measure length"
    using DecodeRuneInString_width [of s] by simp
qed

declare runes.simps [simp del]

text \<open>
  \<open>utf8.AppendRune\<close>, which \<open>Builder.WriteRune\<close> calls: the UTF-8 encoding of a rune; a
  rune outside the range of Unicode, or a surrogate, is written as \<open>U+FFFD\<close>. The
  source switches on \<open>uint32(r)\<close>.
\<close>

definition encode3 :: "int \<Rightarrow> string" where
  "encode3 i = [char_of (0xE0 + i div 4096), char_of (0x80 + i div 64 mod 64), char_of (0x80 + i mod 64)]"

definition AppendRune :: "rune \<Rightarrow> string" where
  "AppendRune r =
     (let i = r mod 2 ^ 32
      in if i \<le> 0x7F then [char_of i]
         else if i \<le> 0x7FF then [char_of (0xC0 + i div 64), char_of (0x80 + i mod 64)]
         else if i > 0x10FFFF \<or> (0xD800 \<le> i \<and> i \<le> 0xDFFF) then encode3 RuneError
         else if i \<le> 0xFFFF then encode3 i
         else [char_of (0xF0 + i div 262144), char_of (0x80 + i div 4096 mod 64),
               char_of (0x80 + i div 64 mod 64), char_of (0x80 + i mod 64)])"

subsection \<open>strings.Map, unicode.ToLower, strings.ToLower and strings.HasPrefix\<close>

text \<open>
  \<open>strings.Map\<close> returns the string with every rune replaced by its image under the
  mapping, encoded again; a rune with a negative image is dropped. A byte that is not
  part of a valid encoding is seen by the mapping as \<open>U+FFFD\<close> and so leaves as the three
  bytes of \<open>U+FFFD\<close>.
\<close>

definition strings_Map :: "(rune \<Rightarrow> rune) \<Rightarrow> string \<Rightarrow> string" where
  "strings_Map mapping s =
     concat (map (\<lambda>c. let r = mapping c in if r \<ge> 0 then AppendRune r else []) (runes s))"

text \<open>
  \<open>unicode.ToLower\<close> treats ASCII itself and looks every other rune up in the case
  tables of package \<open>unicode\<close> (\<open>To(LowerCase, r)\<close>). The tables are data of the Go
  release the program is built with; they are the parameter \<open>lc\<close> of this development,
  and what is proved holds for every table.
\<close>

definition unicode_ToLower :: "(rune \<Rightarrow> rune) \<Rightarrow> rune \<Rightarrow> rune" where
  "unicode_ToLower lc r =
     (if r \<le> 0x7F then (if 65 \<le> r \<and> r \<le> 90 then r + 32 else r) else lc r)"

text \<open>
  \<open>strings.ToLower\<close>: a string of ASCII bytes only is lower-cased byte by byte; any
  other string goes through \<open>strings.Map\<close> with \<open>unicode.ToLower\<close>.
\<close>

definition lower_char :: "char \<Rightarrow> char" where
  "lower_char c = (if 65 \<le> (of_char c :: nat) \<and> (of_char c :: nat) \<le> 90 then char_of (of_char c + 32 :: nat) else c)"

definition isASCII :: "string \<Rightarrow> bool" where
  "isASCII s = list_all (\<lambda>c. (of_char c :: int) < 0x80) s"

definition ToLower :: "(rune \<Rightarrow> rune) \<Rightarrow> string \<Rightarrow> string" where
  "ToLower lc s = (if isASCII s then map lower_char s else strings_Map (unicode_ToLower lc) s)"

definition HasPrefix :: "string \<Rightarrow> string \<Rightarrow> bool" where
  "HasPrefix s p = prefix p s"

subsection \<open>sort.Slice\<close>

text \<open>
  \<open>sort.Slice\<close> sorts by a caller-supplied \<open>less\<close> and promises no order among elements
  that compare equal. It is modelled by insertion sort. Both calls in the program sort
  elements that are pairwise distinct under a strict total order, where the sorted
  arrangement is unique, so the choice of algorithm is not observable
  (see \<open>sort_Slice_unique\<close>).
\<close>

fun insert_Slice :: "('a \<Rightarrow> 'a \<Rightarrow> bool) \<Rightarrow> 'a \<Rightarrow> 'a list \<Rightarrow> 'a list" where
  "insert_Slice lt x [] = [x]"
| "insert_Slice lt x (y # ys) = (if lt y x then y # insert_Slice lt x ys else x # y # ys)"

definition sort_Slice :: "('a \<Rightarrow> 'a \<Rightarrow> bool) \<Rightarrow> 'a list \<Rightarrow> 'a list" where
  "sort_Slice lt xs = foldr (insert_Slice lt) xs []"

section \<open>Host entries\<close>

record Host =
  ShortName :: string
  LongName :: string
  User :: string
  Port :: string
  IP :: string
  IdentityFile :: string
  DescText :: string
  MenuNumber :: int
  Groups :: "string list"
  ServerAliveInterval :: int
  ServerAliveCountMax :: int
  ConnectTimeout :: int

section \<open>Host registry\<close>

text \<open>
  The ways the process ends with \<open>os.Exit(1)\<close> in the functions modelled here; each
  constructor stands for the message printed before the exit.
\<close>

datatype fatal =
    DuplicateMenuNumber int string
  | NoHostsInGroup string
  | InvalidSelection
  | HostNotFound

definition exit_status :: "fatal \<Rightarrow> int" where
  "exit_status e = 1"

subsection \<open>AssignMenuNumbers\<close>

text \<open>
  \<open>usedNumbers\<close> is a \<open>map[int]bool\<close> that only ever receives the value \<open>true\<close>; it is
  modelled by the list of its keys. The first loop returns the fatal error at the
  first entry whose explicit number is already a key.
\<close>

fun collectExplicit :: "Host list \<Rightarrow> int list \<Rightarrow> fatal + int list" where
  "collectExplicit [] used = Inr used"
| "collectExplicit (h # hs) used =
     (if MenuNumber h \<noteq> 0 then
        (if MenuNumber h \<in> set used then Inl (DuplicateMenuNumber (MenuNumber h) (ShortName h))
         else collectExplicit hs (MenuNumber h # used))
      else collectExplicit hs used)"

text \<open>The inner loop \<open>for usedNumbers[nextAvailable] { nextAvailable++ }\<close>.\<close>

function skipUsed :: "int list \<Rightarrow> int \<Rightarrow> int" where
  "skipUsed used n = (if n \<in> set used then skipUsed used (n + 1) else n)"
  by pat_completeness auto
termination
proof (relation "measure (\<lambda>(used, n). card {k \<in> set used. n \<le> k})")
  show "wf (measure (\<lambda>(used, n). card {k \<in> set used. n \<le> k}))" by simp
next
  fix used :: "int list" and n :: int
  assume n: "n \<in> set used"
  have "n \<in> {k \<in> set used. n \<le> k}" and "n \<notin> {k \<in> set used. n + 1 \<le> k}"
    using n by simp_all
  moreover have "{k \<in> set used. n + 1 \<le> k} \<subseteq> {k \<in> set used. n \<le> k}"
    by auto
  ultimately have "{k \<in> set used. n + 1 \<le> k} \<subset> {k \<in> set used. n \<le> k}"
    by blast
  then have "card {k \<in> set used. n + 1 \<le> k} < card {k \<in> set used. n \<le> k}"
    by (intro psubset_card_mono) auto
  then show "((used, n + 1), (used, n)) \<in> measure (\<lambda>(used, n). card {k \<in> set used. n \<le> k})"
    by simp
qed

declare skipUsed.simps [simp del]

text \<open>The second loop, carrying \<open>usedNumbers\<close> and \<open>nextAvailable\<close>.\<close>

fun assignFree :: "Host list \<Rightarrow> int list \<Rightarrow> int \<Rightarrow> Host list" where
  "assignFree [] used nextAvailable = []"
| "assignFree (h # hs) used nextAvailable =
     (if MenuNumber h = 0 then
        (let n = skipUsed used nextAvailable
         in h\<lparr>MenuNumber := n\<rparr> # assignFree hs (n # used) n)
      else h # assignFree hs used nextAvailable)"

definition lessMenuNumber :: "Host \<Rightarrow> Host \<Rightarrow> bool" where
  "lessMenuNumber a b = (MenuNumber a < MenuNumber b)"

definition AssignMenuNumbers :: "Host list \<Rightarrow> fatal + Host list" where
  "AssignMenuNumbers hs =
     (case collectExplicit hs [] of
        Inl e \<Rightarrow> Inl e
      | Inr used \<Rightarrow> Inr (sort_Slice lessMenuNumber (assignFree hs used 1)))"

subsection \<open>What the registry is specified to compute\<close>

text \<open>
  The specification's reading of the second pass: an entry without a number takes the
  smallest positive integer outside the used set, which then joins the set.
\<close>

definition smallest_free :: "int set \<Rightarrow> int" where
  "smallest_free used = (LEAST k. 0 < k \<and> k \<notin> used)"

definition explicit_numbers :: "Host list \<Rightarrow> int set" where
  "explicit_numbers hs = {n \<in> MenuNumber ` set hs. n \<noteq> 0}"

fun assign_spec :: "Host list \<Rightarrow> int set \<Rightarrow> Host list" where
  "assign_spec [] used = []"
| "assign_spec (h # hs) used =
     (if MenuNumber h = 0 then
        (let n = smallest_free used in h\<lparr>MenuNumber := n\<rparr> # assign_spec hs (insert n used))
      else h # assign_spec hs used)"


text \<open>A host entry with the parser's defaults, for concrete examples.\<close>

definition mkHost :: "string \<Rightarrow> int \<Rightarrow> string list \<Rightarrow> Host" where
  "mkHost name n gs =
     \<lparr>ShortName = name, LongName = name, User = ''root'', Port = ''22'', IP = [],
      IdentityFile = [], DescText = ''d'', MenuNumber = n, Groups = gs,
      ServerAliveInterval = 0, ServerAliveCountMax = 0, ConnectTimeout = 0\<rparr>"

text \<open>The example of the specification: \<open>db\<close> has the explicit number 1.\<close>

definition example_hosts :: "Host list" where
  "example_hosts =
     [mkHost ''web1'' 0 [''Prod''], mkHost ''db'' 1 [''Prod''], mkHost ''lb'' 0 [''Prod'']]"


subsection \<open>GetAllGroups\<close>

text \<open>
  \<open>groupMap\<close> is a \<open>map[string]bool\<close> that only receives \<open>true\<close>; it is modelled by
  the list of its keys in the order of their first insertion. Go iterates over a map in
  no fixed order; the model iterates in insertion order, and
  \<open>GetAllGroups_ungrouped_last\<close> shows that the order of iteration does not affect the
  result.
\<close>

definition setKey :: "string \<Rightarrow> string list \<Rightarrow> string list" where
  "setKey g groupMap = (if g \<in> set groupMap then groupMap else groupMap @ [g])"

fun collectHostGroups :: "string list \<Rightarrow> string list \<Rightarrow> string list" where
  "collectHostGroups [] groupMap = groupMap"
| "collectHostGroups (g # gs) groupMap = collectHostGroups gs (setKey g groupMap)"

fun collectGroups :: "Host list \<Rightarrow> string list \<Rightarrow> string list" where
  "collectGroups [] groupMap = groupMap"
| "collectGroups (h # hs) groupMap = collectGroups hs (collectHostGroups (Groups h) groupMap)"

fun hasUngrouped :: "Host list \<Rightarrow> bool" where
  "hasUngrouped [] = False"
| "hasUngrouped (h # hs) = (if Groups h = [] then True else hasUngrouped hs)"

definition lessUngroupedLast :: "string \<Rightarrow> string \<Rightarrow> bool" where
  "lessUngroupedLast a b =
     (if a = ''Ungrouped'' then False
      else if b = ''Ungrouped'' then True
      else a < b)"

definition GetAllGroups :: "Host list \<Rightarrow> string list" where
  "GetAllGroups hs =
     (let groupMap = collectGroups hs [];
          groupMap = (if hasUngrouped hs then setKey ''Ungrouped'' groupMap else groupMap)
      in sort_Slice lessUngroupedLast groupMap)"

text \<open>
  The specification's reading: the names in use, with \<open>Ungrouped\<close> when some entry has
  no group, in lexical (byte-wise) order except that \<open>Ungrouped\<close> comes last.
\<close>

definition group_names :: "Host list \<Rightarrow> string set" where
  "group_names hs =
     (\<Union>h \<in> set hs. set (Groups h)) \<union> (if \<exists>h \<in> set hs. Groups h = [] then {''Ungrouped''} else {})"

definition ungrouped_last :: "string set \<Rightarrow> string list" where
  "ungrouped_last S =
     sorted_list_of_set (S - {''Ungrouped''}) @ (if ''Ungrouped'' \<in> S then [''Ungrouped''] else [])"

definition grouped_hosts :: "Host list" where
  "grouped_hosts =
     [mkHost ''a'' 1 [''web'', ''Prod''], mkHost ''b'' 2 [], mkHost ''c'' 3 [''Zeta'', ''web'']]"

section \<open>The command line: group filter and direct selection\<close>

text \<open>The inner loop of \<open>filterHostsByGroup\<close>, which stops at the first equal name.\<close>

fun hasGroup :: "string list \<Rightarrow> string \<Rightarrow> bool" where
  "hasGroup [] grp = False"
| "hasGroup (g # gs) grp = (if g = grp then True else hasGroup gs grp)"

fun filterHostsByGroup :: "Host list \<Rightarrow> string \<Rightarrow> Host list" where
  "filterHostsByGroup [] grp = []"
| "filterHostsByGroup (h # hs) grp =
     (if grp = ''Ungrouped'' then
        (if Groups h = [] then h # filterHostsByGroup hs grp else filterHostsByGroup hs grp)
      else
        (if hasGroup (Groups h) grp then h # filterHostsByGroup hs grp
         else filterHostsByGroup hs grp))"

text \<open>The two search loops of \<open>handleDirectHostSelection\<close>; each stops at the first match.\<close>

fun findByNumber :: "Host list \<Rightarrow> int \<Rightarrow> Host option" where
  "findByNumber [] num = None"
| "findByNumber (h # hs) num = (if MenuNumber h = num then Some h else findByNumber hs num)"

fun findByName :: "Host list \<Rightarrow> string \<Rightarrow> Host option" where
  "findByName [] input = None"
| "findByName (h # hs) input =
     (if ShortName h = input \<or> LongName h = input \<or> IP h = input then Some h
      else findByName hs input)"

text \<open>
  \<open>handleDirectHostSelection\<close> either exits with status 1 or hands the selected host to
  \<open>connectSSH\<close>; the result \<open>Inr h\<close> stands for the call \<open>connectSSH(h)\<close>.
\<close>

definition handleDirectHostSelection :: "string \<Rightarrow> Host list \<Rightarrow> fatal + Host" where
  "handleDirectHostSelection input hs =
     (case Atoi input of
        Some num \<Rightarrow>
          (case findByNumber hs num of None \<Rightarrow> Inl InvalidSelection | Some h \<Rightarrow> Inr h)
      | None \<Rightarrow>
          (case findByName hs input of None \<Rightarrow> Inl HostNotFound | Some h \<Rightarrow> Inr h))"

text \<open>
  What \<open>main\<close> does with the numbered host list, the value of \<open>-g\<close> and the positional
  arguments: exit, connect to a host, or start the interactive selector on a host list.
\<close>

datatype outcome = Exit fatal | Connect Host | StartUI "Host list"

definition main_select :: "string \<Rightarrow> string list \<Rightarrow> Host list \<Rightarrow> outcome" where
  "main_select grp args hs =
     (let hs' = (if grp \<noteq> [] then filterHostsByGroup hs grp else hs)
      in if grp \<noteq> [] \<and> hs' = [] then Exit (NoHostsInGroup grp)
         else (case args of
                 [] \<Rightarrow> StartUI hs'
               | a # _ \<Rightarrow>
                   (case handleDirectHostSelection a hs' of
                      Inl e \<Rightarrow> Exit e
                    | Inr h \<Rightarrow> Connect h)))"

text \<open>Membership in the requested group, and what a positional argument names.\<close>

definition in_group :: "Host \<Rightarrow> string \<Rightarrow> bool" where
  "in_group h grp = (if grp = ''Ungrouped'' then Groups h = [] else grp \<in> set (Groups h))"

definition identifies :: "string \<Rightarrow> Host \<Rightarrow> bool" where
  "identifies a h =
     (case Atoi a of
        Some num \<Rightarrow> MenuNumber h = num
      | None \<Rightarrow> ShortName h = a \<or> LongName h = a \<or> IP h = a)"

section \<open>Configuration parser\<close>

subsection \<open>The regular expressions of \<open>newConfigParser\<close>\<close>

text \<open>
  Each pattern is anchored at both ends and is matched by a function that returns the
  submatches \<open>FindStringSubmatch\<close> would return, \<open>None\<close> when the line does not match.
  \<open>.\<close> matches any byte except a line feed; \<open>$\<close> matches at the end of the text only.
\<close>

definition strip_prefix :: "string \<Rightarrow> string \<Rightarrow> string option" where
  "strip_prefix p s = (if prefix p s then Some (drop (length p) s) else None)"

text \<open>
  The tails \<open>\s+(.+)$\<close> (\<open>need_space\<close>) and \<open>\s*(.+)$\<close>. The white space is matched
  greedily, so the submatch starts at the first character that is not white space; when
  only white space is left, its last character is given back to \<open>(.+)\<close>.
\<close>

definition re_rest :: "bool \<Rightarrow> string \<Rightarrow> string option" where
  "re_rest need_space rest =
     (let v = dropWhile re_space rest
      in if need_space \<and> v = rest then None
         else if v \<noteq> [] then (if CHR 0x0A \<in> set v then None else Some v)
         else if (if need_space then 2 else 1) \<le> length rest \<and> last rest \<noteq> CHR 0x0A
              then Some [last rest]
         else None)"

text \<open>\<open>^KEYWORD\s+(.+)$\<close>\<close>

definition re_keyword :: "string \<Rightarrow> string \<Rightarrow> string option" where
  "re_keyword kw line =
     (case strip_prefix kw line of None \<Rightarrow> None | Some rest \<Rightarrow> re_rest True rest)"

text \<open>\<open>^KEYWORD\s+(\d+)$\<close>\<close>

definition re_keyword_digits :: "string \<Rightarrow> string \<Rightarrow> string option" where
  "re_keyword_digits kw line =
     (case strip_prefix kw line of
        None \<Rightarrow> None
      | Some rest \<Rightarrow>
          (let v = dropWhile re_space rest
           in if v = rest \<or> v = [] \<or> list_ex (\<lambda>c. \<not> re_digit c) v then None else Some v))"

text \<open>\<open>^#\s*KEY:\s*(.+)$\<close>, with the colon part of \<open>key\<close>.\<close>

definition re_comment :: "string \<Rightarrow> string \<Rightarrow> string option" where
  "re_comment key line =
     (case strip_prefix ''#'' line of
        None \<Rightarrow> None
      | Some r \<Rightarrow>
          (case strip_prefix key (dropWhile re_space r) of
             None \<Rightarrow> None
           | Some rest \<Rightarrow> re_rest False rest))"

definition reHost :: "string \<Rightarrow> string option" where
  "reHost = re_keyword ''Host''"

definition reHostname :: "string \<Rightarrow> string option" where
  "reHostname = re_keyword ''Hostname''"

definition reUser :: "string \<Rightarrow> string option" where
  "reUser = re_keyword ''User''"

definition rePort :: "string \<Rightarrow> string option" where
  "rePort = re_keyword_digits ''Port''"

definition reIdentity :: "string \<Rightarrow> string option" where
  "reIdentity = re_keyword ''IdentityFile''"

text \<open>
  \<open>^#\s*Menu(?:\s+(\d+))?:\s*(.+)$\<close>: after \<open>Menu\<close> comes either the colon at once (the
  number group takes no part and its submatch is the empty string) or white space, digits
  and the colon. The result is the pair of submatches 1 and 2.
\<close>

definition reMenu :: "string \<Rightarrow> (string \<times> string) option" where
  "reMenu line =
     (case strip_prefix ''#'' line of
        None \<Rightarrow> None
      | Some r \<Rightarrow>
          (case strip_prefix ''Menu'' (dropWhile re_space r) of
             None \<Rightarrow> None
           | Some r2 \<Rightarrow>
               (case strip_prefix '':'' r2 of
                  Some r3 \<Rightarrow> map_option (Pair []) (re_rest False r3)
                | None \<Rightarrow>
                    (let w = dropWhile re_space r2;
                         ds = takeWhile re_digit w
                     in if w = r2 \<or> ds = [] then None
                        else (case strip_prefix '':'' (dropWhile re_digit w) of
                                None \<Rightarrow> None
                              | Some r4 \<Rightarrow> map_option (Pair ds) (re_rest False r4))))))"

definition reIP :: "string \<Rightarrow> string option" where
  "reIP = re_comment ''IP:''"

definition reGroup :: "string \<Rightarrow> string option" where
  "reGroup = re_comment ''Group:''"

definition reConnTimeout :: "string \<Rightarrow> string option" where
  "reConnTimeout = re_keyword_digits ''ConnectTimeout''"

definition reServerAliveInterval :: "string \<Rightarrow> string option" where
  "reServerAliveInterval = re_keyword_digits ''ServerAliveInterval''"

definition reServerAliveCountMax :: "string \<Rightarrow> string option" where
  "reServerAliveCountMax = re_keyword_digits ''ServerAliveCountMax''"

subsection \<open>parseLine and its handlers\<close>

datatype config_error = OpenError | InvalidMenuNumber string | StatError | ReadDirError

text \<open>The host record \<open>readConfigFile\<close> starts with, and the one a \<open>Host\<close> line creates.\<close>

definition initialHost :: Host where
  "initialHost =
     \<lparr>ShortName = [], LongName = [], User = ''root'', Port = ''22'', IP = [],
      IdentityFile = [], DescText = [], MenuNumber = 0, Groups = [],
      ServerAliveInterval = 0, ServerAliveCountMax = 0, ConnectTimeout = 0\<rparr>"

definition handleHostLine :: "string \<Rightarrow> Host \<Rightarrow> Host list \<Rightarrow> Host \<times> Host list" where
  "handleHostLine hostName current hs =
     (initialHost\<lparr>ShortName := hostName, LongName := hostName\<rparr>,
      if ShortName current \<noteq> [] \<and> DescText current \<noteq> [] then hs @ [current] else hs)"

definition handleMenuLine :: "string \<times> string \<Rightarrow> Host \<Rightarrow> config_error + Host" where
  "handleMenuLine matches current =
     (if fst matches \<noteq> [] then
        (case Atoi (fst matches) of
           None \<Rightarrow> Inl (InvalidMenuNumber (fst matches))
         | Some num \<Rightarrow> Inr (current\<lparr>MenuNumber := num, DescText := snd matches\<rparr>))
      else Inr (current\<lparr>MenuNumber := 0, DescText := snd matches\<rparr>))"

definition handleGroupLine :: "string \<Rightarrow> Host \<Rightarrow> Host" where
  "handleGroupLine groupValue current =
     (let g = TrimSpace groupValue
      in if g \<in> set (Groups current) then current else current\<lparr>Groups := Groups current @ [g]\<rparr>)"

definition parseLine :: "string \<Rightarrow> Host \<times> Host list \<Rightarrow> config_error + Host \<times> Host list" where
  "parseLine line st =
     (let current = fst st; hs = snd st in
      (case reHost line of Some m \<Rightarrow> Inr (handleHostLine m current hs) | None \<Rightarrow>
      (case reHostname line of Some m \<Rightarrow> Inr (current\<lparr>LongName := m\<rparr>, hs) | None \<Rightarrow>
      (case reUser line of Some m \<Rightarrow> Inr (current\<lparr>User := m\<rparr>, hs) | None \<Rightarrow>
      (case rePort line of Some m \<Rightarrow> Inr (current\<lparr>Port := m\<rparr>, hs) | None \<Rightarrow>
      (case reIdentity line of Some m \<Rightarrow> Inr (current\<lparr>IdentityFile := m\<rparr>, hs) | None \<Rightarrow>
      (case reMenu line of
         Some m \<Rightarrow> (case handleMenuLine m current of Inl e \<Rightarrow> Inl e | Inr c \<Rightarrow> Inr (c, hs))
       | None \<Rightarrow>
      (case reIP line of Some m \<Rightarrow> Inr (current\<lparr>IP := m\<rparr>, hs) | None \<Rightarrow>
      (case reGroup line of Some m \<Rightarrow> Inr (handleGroupLine m current, hs) | None \<Rightarrow>
      (case reConnTimeout line of
         Some m \<Rightarrow>
           Inr ((case Atoi m of Some n \<Rightarrow> current\<lparr>ConnectTimeout := n\<rparr> | None \<Rightarrow> current), hs)
       | None \<Rightarrow>
      (case reServerAliveInterval line of
         Some m \<Rightarrow>
           Inr ((case Atoi m of Some n \<Rightarrow> current\<lparr>ServerAliveInterval := n\<rparr> | None \<Rightarrow> current), hs)
       | None \<Rightarrow>
      (case reServerAliveCountMax line of
         Some m \<Rightarrow>
           Inr ((case Atoi m of Some n \<Rightarrow> current\<lparr>ServerAliveCountMax := n\<rparr> | None \<Rightarrow> current), hs)
       | None \<Rightarrow> Inr (current, hs)))))))))))))"

subsection \<open>readConfigFile and ReadConfigFiles\<close>

text \<open>
  A file is the list of lines its \<open>bufio.Scanner\<close> delivers, \<open>None\<close> when it cannot be
  opened. The loop trims each line, skips the empty ones and stops at the first error.
\<close>

fun scanLines :: "string list \<Rightarrow> Host \<times> Host list \<Rightarrow> config_error + Host \<times> Host list" where
  "scanLines [] st = Inr st"
| "scanLines (text # rest) st =
     (let line = TrimSpace text
      in if line = [] then scanLines rest st
         else (case parseLine line st of Inl e \<Rightarrow> Inl e | Inr st' \<Rightarrow> scanLines rest st'))"

definition readConfigFile :: "string list option \<Rightarrow> config_error + Host list" where
  "readConfigFile file =
     (case file of
        None \<Rightarrow> Inl OpenError
      | Some lines \<Rightarrow>
          (case scanLines lines (initialHost, []) of
             Inl e \<Rightarrow> Inl e
           | Inr (current, hs) \<Rightarrow>
               Inr (if ShortName current \<noteq> [] \<and> DescText current \<noteq> [] then hs @ [current] else hs)))"

text \<open>
  The directory \<open>config.d\<close> beside the primary file, as \<open>os.Stat\<close> and \<open>os.ReadDir\<close>
  report it: absent, present but not a directory, not to be examined, a directory that
  cannot be listed, or a directory with its entries in listing order. An entry has its
  name, whether it is a directory, and the file found at its path.
\<close>

record DirEntry =
  entryName :: string
  entryIsDir :: bool
  entryFile :: "string list option"

datatype config_dir = NotExist | NotDir | StatFailed | ReadDirFailed | Listing "DirEntry list"

text \<open>
  The loop over the entries: directories and hidden files are skipped; a file that
  fails is skipped after a warning.
\<close>

fun readAdditional :: "DirEntry list \<Rightarrow> Host list \<Rightarrow> Host list" where
  "readAdditional [] allHosts = allHosts"
| "readAdditional (file # files) allHosts =
     (if entryIsDir file \<or> HasPrefix (entryName file) ''.'' then readAdditional files allHosts
      else
        (case readConfigFile (entryFile file) of
           Inl e \<Rightarrow> readAdditional files allHosts
         | Inr additionalHosts \<Rightarrow> readAdditional files (allHosts @ additionalHosts)))"

definition ReadConfigFiles :: "string list option \<Rightarrow> config_dir \<Rightarrow> config_error + Host list" where
  "ReadConfigFiles mainFile configDir =
     (case readConfigFile mainFile of
        Inl e \<Rightarrow> Inl e
      | Inr mainHosts \<Rightarrow>
          (case configDir of
             NotExist \<Rightarrow> Inr mainHosts
           | NotDir \<Rightarrow> Inr mainHosts
           | StatFailed \<Rightarrow> Inl StatError
           | ReadDirFailed \<Rightarrow> Inl ReadDirError
           | Listing files \<Rightarrow> Inr (readAdditional files mainHosts)))"

subsection \<open>Host blocks\<close>

text \<open>
  The specification's view of a file: the trimmed non-empty lines fall into blocks, each
  a \<open>Host\<close> line with the lines up to the next \<open>Host\<close> line. The entry of a block is the
  record the lines of its body leave behind, and it is retained when its short name and
  description are not empty.
\<close>

definition content_lines :: "string list \<Rightarrow> string list" where
  "content_lines lines = filter (\<lambda>l. l \<noteq> []) (map TrimSpace lines)"

fun host_blocks :: "string list \<Rightarrow> (string \<times> string list) list" where
  "host_blocks [] = []"
| "host_blocks (l # ls) =
     (case reHost l of
        Some name \<Rightarrow> (name, takeWhile (\<lambda>l. reHost l = None) ls) # host_blocks ls
      | None \<Rightarrow> host_blocks ls)"

definition line_effect :: "string \<Rightarrow> Host \<Rightarrow> Host" where
  "line_effect l c = (case parseLine l (c, []) of Inr st \<Rightarrow> fst st | Inl e \<Rightarrow> c)"

definition block_entry :: "string \<times> string list \<Rightarrow> Host" where
  "block_entry b = fold line_effect (snd b) (initialHost\<lparr>ShortName := fst b, LongName := fst b\<rparr>)"

definition retained :: "Host \<Rightarrow> bool" where
  "retained h = (ShortName h \<noteq> [] \<and> DescText h \<noteq> [])"

definition has_menu :: "string \<times> string list \<Rightarrow> bool" where
  "has_menu b = list_ex (\<lambda>l. reMenu l \<noteq> None) (snd b)"

text \<open>
  A \<open>Menu\<close> line whose explicit number is a digit string above the largest \<open>int\<close>: the one
  input on which \<open>strconv.Atoi\<close> fails in \<open>handleMenuLine\<close>.
\<close>

definition menu_number_out_of_range :: "string \<Rightarrow> bool" where
  "menu_number_out_of_range l =
     (case reMenu l of
        None \<Rightarrow> False
      | Some m \<Rightarrow> fst m \<noteq> [] \<and> 2 ^ 63 - 1 < digits_value (fst m))"

definition sample_config :: "string list" where
  "sample_config =
     [''# ColorBackground: #000000'',
      ''Host web1'',
      ''    Hostname web1.example.com'',
      ''    ConnectTimeout 99999999999999999999'',
      ''    # Menu: Primary web server'',
      ''    # Group: Prod'',
      '''',
      ''Host template*'',
      ''    User admin'',
      ''Host db'',
      ''    Port 3022'',
      ''    # Menu 1: Primary database server'']"

definition overflow_config :: "string list" where
  "overflow_config =
     [''Host a'', ''  # Menu: first'', ''Host b'', ''  # Menu 99999999999999999999: second'']"

section \<open>Colour configuration\<close>

record ColorConfig =
  Background :: string
  Foreground :: string
  Border :: string
  Selected :: string
  Accent :: string
  Dimmed :: string

definition DefaultColors :: ColorConfig where
  "DefaultColors =
     \<lparr>Background = ''#1e1e2e'', Foreground = ''#cdd6f4'', Border = ''#9399b2'',
      Selected = ''#a6e3a1'', Accent = ''#89dceb'', Dimmed = ''#585b70''\<rparr>"

text \<open>The zero value \<open>ColorConfig{}\<close>.\<close>

definition noColors :: ColorConfig where
  "noColors =
     \<lparr>Background = [], Foreground = [], Border = [], Selected = [], Accent = [], Dimmed = []\<rparr>"

text \<open>
  The environment is the function \<open>os.Getenv\<close>, which gives the empty string for a
  variable that is not set. The loop of \<open>applyEnvVarColors\<close> runs over a map whose setters
  write six different fields, so its order does not matter.
\<close>

definition applyEnvVarColors :: "(string \<Rightarrow> string) \<Rightarrow> ColorConfig \<Rightarrow> ColorConfig" where
  "applyEnvVarColors getenv config =
     (let config = (if getenv ''SSH_MENU_COLOR_BACKGROUND'' \<noteq> [] then config\<lparr>Background := getenv ''SSH_MENU_COLOR_BACKGROUND''\<rparr> else config);
          config = (if getenv ''SSH_MENU_COLOR_FOREGROUND'' \<noteq> [] then config\<lparr>Foreground := getenv ''SSH_MENU_COLOR_FOREGROUND''\<rparr> else config);
          config = (if getenv ''SSH_MENU_COLOR_BORDER'' \<noteq> [] then config\<lparr>Border := getenv ''SSH_MENU_COLOR_BORDER''\<rparr> else config);
          config = (if getenv ''SSH_MENU_COLOR_SELECTED'' \<noteq> [] then config\<lparr>Selected := getenv ''SSH_MENU_COLOR_SELECTED''\<rparr> else config);
          config = (if getenv ''SSH_MENU_COLOR_ACCENT'' \<noteq> [] then config\<lparr>Accent := getenv ''SSH_MENU_COLOR_ACCENT''\<rparr> else config);
          config = (if getenv ''SSH_MENU_COLOR_DIMMED'' \<noteq> [] then config\<lparr>Dimmed := getenv ''SSH_MENU_COLOR_DIMMED''\<rparr> else config)
      in config)"

definition mergeConfigColors :: "ColorConfig \<Rightarrow> ColorConfig \<Rightarrow> ColorConfig" where
  "mergeConfigColors config configColors =
     (let defaults = DefaultColors;
          config = (if Background config = Background defaults \<and> Background configColors \<noteq> []
                    then config\<lparr>Background := Background configColors\<rparr> else config);
          config = (if Foreground config = Foreground defaults \<and> Foreground configColors \<noteq> []
                    then config\<lparr>Foreground := Foreground configColors\<rparr> else config);
          config = (if Border config = Border defaults \<and> Border configColors \<noteq> []
                    then config\<lparr>Border := Border configColors\<rparr> else config);
          config = (if Selected config = Selected defaults \<and> Selected configColors \<noteq> []
                    then config\<lparr>Selected := Selected configColors\<rparr> else config);
          config = (if Accent config = Accent defaults \<and> Accent configColors \<noteq> []
                    then config\<lparr>Accent := Accent configColors\<rparr> else config);
          config = (if Dimmed config = Dimmed defaults \<and> Dimmed configColors \<noteq> []
                    then config\<lparr>Dimmed := Dimmed configColors\<rparr> else config)
      in config)"

text \<open>The body of the loop of \<open>readColorsFromConfig\<close>: the first pattern that matches sets its field.\<close>

definition colorLine :: "string \<Rightarrow> ColorConfig \<Rightarrow> ColorConfig" where
  "colorLine text config =
     (let line = TrimSpace text in
      (case re_comment ''ColorBackground:'' line of Some m \<Rightarrow> config\<lparr>Background := TrimSpace m\<rparr> | None \<Rightarrow>
      (case re_comment ''ColorForeground:'' line of Some m \<Rightarrow> config\<lparr>Foreground := TrimSpace m\<rparr> | None \<Rightarrow>
      (case re_comment ''ColorBorder:'' line of Some m \<Rightarrow> config\<lparr>Border := TrimSpace m\<rparr> | None \<Rightarrow>
      (case re_comment ''ColorSelected:'' line of Some m \<Rightarrow> config\<lparr>Selected := TrimSpace m\<rparr> | None \<Rightarrow>
      (case re_comment ''ColorAccent:'' line of Some m \<Rightarrow> config\<lparr>Accent := TrimSpace m\<rparr> | None \<Rightarrow>
      (case re_comment ''ColorDimmed:'' line of Some m \<Rightarrow> config\<lparr>Dimmed := TrimSpace m\<rparr> | None \<Rightarrow>
       config)))))))"

text \<open>A file is the list of its lines, \<open>None\<close> when it cannot be read.\<close>

definition readColorsFromConfig :: "string list option \<Rightarrow> ColorConfig" where
  "readColorsFromConfig file =
     (case file of None \<Rightarrow> noColors | Some lines \<Rightarrow> fold colorLine lines noColors)"

text \<open>
  \<open>ApplyColorConfig\<close> stores its result in the package variable \<open>currentColorConfig\<close>;
  here it returns it.
\<close>

definition ApplyColorConfig ::
    "(string \<Rightarrow> string) \<Rightarrow> string \<Rightarrow> (string \<Rightarrow> string list option) \<Rightarrow> ColorConfig" where
  "ApplyColorConfig getenv configPath readFile =
     (let config = applyEnvVarColors getenv DefaultColors
      in if configPath \<noteq> [] then mergeConfigColors config (readColorsFromConfig (readFile configPath))
         else config)"

subsection \<open>getColorSettings\<close>

text \<open>
  The second implementation of the same priority in the parser's file: a colour comment
  is applied only when the environment variable of its slot is empty. Its
  \<open>applyEnvColors\<close> assigns the six fields as \<open>applyEnvVarColors\<close> does.
\<close>

definition parseColorLine :: "(string \<Rightarrow> string) \<Rightarrow> string \<Rightarrow> ColorConfig \<Rightarrow> ColorConfig" where
  "parseColorLine getenv line config =
     (let config = (case re_comment ''ColorBackground:'' line of
                      Some m \<Rightarrow> (if getenv ''SSH_MENU_COLOR_BACKGROUND'' = [] then config\<lparr>Background := m\<rparr> else config)
                    | None \<Rightarrow> config);
          config = (case re_comment ''ColorForeground:'' line of
                      Some m \<Rightarrow> (if getenv ''SSH_MENU_COLOR_FOREGROUND'' = [] then config\<lparr>Foreground := m\<rparr> else config)
                    | None \<Rightarrow> config);
          config = (case re_comment ''ColorBorder:'' line of
                      Some m \<Rightarrow> (if getenv ''SSH_MENU_COLOR_BORDER'' = [] then config\<lparr>Border := m\<rparr> else config)
                    | None \<Rightarrow> config);
          config = (case re_comment ''ColorSelected:'' line of
                      Some m \<Rightarrow> (if getenv ''SSH_MENU_COLOR_SELECTED'' = [] then config\<lparr>Selected := m\<rparr> else config)
                    | None \<Rightarrow> config);
          config = (case re_comment ''ColorAccent:'' line of
                      Some m \<Rightarrow> (if getenv ''SSH_MENU_COLOR_ACCENT'' = [] then config\<lparr>Accent := m\<rparr> else config)
                    | None \<Rightarrow> config);
          config = (case re_comment ''ColorDimmed:'' line of
                      Some m \<Rightarrow> (if getenv ''SSH_MENU_COLOR_DIMMED'' = [] then config\<lparr>Dimmed := m\<rparr> else config)
                    | None \<Rightarrow> config)
      in config)"

definition getColorSettings :: "(string \<Rightarrow> string) \<Rightarrow> string list option \<Rightarrow> ColorConfig" where
  "getColorSettings getenv file =
     (let colorConfig = applyEnvVarColors getenv DefaultColors
      in case file of
           None \<Rightarrow> colorConfig
         | Some lines \<Rightarrow> fold (\<lambda>text. parseColorLine getenv (TrimSpace text)) lines colorConfig)"

text \<open>An environment that sets the background to the default value, and a file that overrides it.\<close>

definition background_env :: "string \<Rightarrow> string" where
  "background_env v = (if v = ''SSH_MENU_COLOR_BACKGROUND'' then ''#1e1e2e'' else [])"

definition black_background_file :: "string \<Rightarrow> string list option" where
  "black_background_file path = Some [''# ColorBackground: #000000'', ''# ColorAccent: #ffffff'']"

section \<open>Interactive selector\<close>

record Model =
  hosts :: "Host list"
  Selected :: "Host option"
  verbose :: bool
  detailed :: bool
  sshOpts :: string
  cursor :: int
  viewIndex :: int
  groups :: "string list"
  filteredHosts :: "Host list"
  filterText :: string
  width :: int
  height :: int

text \<open>
  The run-time panics of the selector: an index outside \<open>filteredHosts\<close> in
  \<open>handleEnterKey\<close>, and an index outside \<open>groups\<close> in \<open>updateFilteredHosts\<close>
  (both checks of the source only bound the index from above).
\<close>

datatype panic = FilteredHostsIndex int | GroupsIndex int

datatype Cmd = NoCmd | Quit

datatype KeyType =
    KeyEscape | KeyEnter | KeyUp | KeyDown | KeyLeft | KeyRight
  | KeyBackspace | KeyRunes string | KeyTab | KeyOther

datatype Msg = WindowSizeMsg int int | KeyMsg KeyType | OtherMsg

subsection \<open>getHostsForGroup\<close>

fun ungroupedHosts :: "Host list \<Rightarrow> Host list" where
  "ungroupedHosts [] = []"
| "ungroupedHosts (h # hs) = (if Groups h = [] then h # ungroupedHosts hs else ungroupedHosts hs)"

fun groupMembers :: "Host list \<Rightarrow> string \<Rightarrow> Host list" where
  "groupMembers [] groupName = []"
| "groupMembers (h # hs) groupName =
     (if hasGroup (Groups h) groupName then h # groupMembers hs groupName
      else groupMembers hs groupName)"

definition getHostsForGroup :: "Model \<Rightarrow> string \<Rightarrow> Host list" where
  "getHostsForGroup m groupName =
     (if groupName = ''Ungrouped'' then ungroupedHosts (hosts m)
      else groupMembers (hosts m) groupName)"

subsection \<open>updateFilteredHosts\<close>

text \<open>
  The first half of \<open>updateFilteredHosts\<close>: the hosts of the current view. The slice
  stays empty when the group index is too large; a negative index panics.
\<close>

definition viewHostsOf :: "Model \<Rightarrow> panic + Host list" where
  "viewHostsOf m =
     (if viewIndex m = 0 then Inr (hosts m)
      else
        (let groupIndex = viewIndex m - 1
         in if groupIndex < int (length (groups m)) then
              (if groupIndex < 0 then Inl (GroupsIndex groupIndex)
               else Inr (getHostsForGroup m (groups m ! nat groupIndex)))
            else Inr []))"

text \<open>The loop of the second half, appending each matching host to the new slice.\<close>

fun filterLoop :: "(rune \<Rightarrow> rune) \<Rightarrow> string \<Rightarrow> string \<Rightarrow> Host list \<Rightarrow> Host list \<Rightarrow> Host list" where
  "filterLoop lc ft filterLower [] acc = acc"
| "filterLoop lc ft filterLower (host # rest) acc =
     (if HasPrefix (Sprintf_d (MenuNumber host)) ft then filterLoop lc ft filterLower rest (acc @ [host])
      else if HasPrefix (ToLower lc (ShortName host)) filterLower then filterLoop lc ft filterLower rest (acc @ [host])
      else if HasPrefix (ToLower lc (LongName host)) filterLower then filterLoop lc ft filterLower rest (acc @ [host])
      else filterLoop lc ft filterLower rest acc)"

definition applyFilter :: "(rune \<Rightarrow> rune) \<Rightarrow> string \<Rightarrow> Host list \<Rightarrow> Host list" where
  "applyFilter lc ft viewHosts =
     (if ft = [] then viewHosts else filterLoop lc ft (ToLower lc ft) viewHosts [])"

definition updateFilteredHosts :: "(rune \<Rightarrow> rune) \<Rightarrow> Model \<Rightarrow> panic + Model" where
  "updateFilteredHosts lc m =
     (case viewHostsOf m of
        Inl p \<Rightarrow> Inl p
      | Inr viewHosts \<Rightarrow> Inr (m\<lparr>filteredHosts := applyFilter lc (filterText m) viewHosts\<rparr>))"

subsection \<open>Key handlers\<close>

definition handleEnterKey :: "Model \<Rightarrow> panic + Model \<times> Cmd" where
  "handleEnterKey m =
     (if length (filteredHosts m) = 1 then Inr (m\<lparr>Selected := Some (filteredHosts m ! 0)\<rparr>, Quit)
      else if length (filteredHosts m) > 0 \<and> cursor m < int (length (filteredHosts m)) then
        (if cursor m < 0 then Inl (FilteredHostsIndex (cursor m))
         else Inr (m\<lparr>Selected := Some (filteredHosts m ! nat (cursor m))\<rparr>, Quit))
      else Inr (m, NoCmd))"

definition handleBackspace :: "(rune \<Rightarrow> rune) \<Rightarrow> Model \<Rightarrow> panic + Model" where
  "handleBackspace lc m =
     (if length (filterText m) > 0 then
        (case updateFilteredHosts lc (m\<lparr>filterText := butlast (filterText m)\<rparr>) of
           Inl p \<Rightarrow> Inl p
         | Inr m' \<Rightarrow> Inr (m'\<lparr>cursor := 0\<rparr>))
      else Inr m)"

definition handleTypedCharacter :: "(rune \<Rightarrow> rune) \<Rightarrow> Model \<Rightarrow> string \<Rightarrow> panic + Model" where
  "handleTypedCharacter lc m char =
     (case updateFilteredHosts lc (m\<lparr>filterText := filterText m @ char\<rparr>) of
        Inl p \<Rightarrow> Inl p
      | Inr m' \<Rightarrow> Inr (m'\<lparr>cursor := 0\<rparr>))"

definition moveCursor :: "Model \<Rightarrow> int \<Rightarrow> Model" where
  "moveCursor m delta =
     (let c = cursor m + delta
      in if c < 0 then m\<lparr>cursor := 0\<rparr>
         else if c \<ge> int (length (filteredHosts m)) then m\<lparr>cursor := int (length (filteredHosts m)) - 1\<rparr>
         else m\<lparr>cursor := c\<rparr>)"

definition navigateView :: "(rune \<Rightarrow> rune) \<Rightarrow> Model \<Rightarrow> int \<Rightarrow> panic + Model" where
  "navigateView lc m delta =
     (let totalViews = 1 + int (length (groups m));
          v = viewIndex m + delta;
          v = (if v < 0 then totalViews - 1 else if v \<ge> totalViews then 0 else v)
      in updateFilteredHosts lc (m\<lparr>viewIndex := v, filterText := [], cursor := 0\<rparr>))"

definition continue :: "panic + Model \<Rightarrow> panic + Model \<times> Cmd" where
  "continue r = (case r of Inl p \<Rightarrow> Inl p | Inr m \<Rightarrow> Inr (m, NoCmd))"

fun handleKeyPress :: "(rune \<Rightarrow> rune) \<Rightarrow> Model \<Rightarrow> KeyType \<Rightarrow> panic + Model \<times> Cmd" where
  "handleKeyPress lc m KeyEscape = Inr (m, Quit)"
| "handleKeyPress lc m KeyEnter = handleEnterKey m"
| "handleKeyPress lc m KeyUp = Inr (moveCursor m (- 1), NoCmd)"
| "handleKeyPress lc m KeyDown = Inr (moveCursor m 1, NoCmd)"
| "handleKeyPress lc m KeyLeft = continue (navigateView lc m (- 1))"
| "handleKeyPress lc m KeyRight = continue (navigateView lc m 1)"
| "handleKeyPress lc m KeyBackspace = continue (handleBackspace lc m)"
| "handleKeyPress lc m (KeyRunes s) = continue (handleTypedCharacter lc m s)"
| "handleKeyPress lc m KeyTab = continue (navigateView lc m 1)"
| "handleKeyPress lc m KeyOther = Inr (m, NoCmd)"

fun Update :: "(rune \<Rightarrow> rune) \<Rightarrow> Model \<Rightarrow> Msg \<Rightarrow> panic + Model \<times> Cmd" where
  "Update lc m (WindowSizeMsg w h) = Inr (m\<lparr>width := w, height := h\<rparr>, NoCmd)"
| "Update lc m (KeyMsg k) = handleKeyPress lc m k"
| "Update lc m OtherMsg = Inr (m, NoCmd)"

definition SetupUI :: "(rune \<Rightarrow> rune) \<Rightarrow> Host list \<Rightarrow> bool \<Rightarrow> bool \<Rightarrow> string \<Rightarrow> panic + Model" where
  "SetupUI lc hs v d opts =
     updateFilteredHosts lc
       \<lparr>hosts = hs, Selected = None, verbose = v, detailed = d, sshOpts = opts, cursor = 0,
        viewIndex = 0, groups = GetAllGroups hs, filteredHosts = hs, filterText = [],
        width = 0, height = 0\<rparr>"

text \<open>
  The event loop of the terminal library: messages are handled one at a time until a
  handler returns \<open>Quit\<close> or panics.
\<close>

datatype run = Running Model | Stopped Model | Panicked panic

fun eventLoop :: "(rune \<Rightarrow> rune) \<Rightarrow> Model \<Rightarrow> Msg list \<Rightarrow> run" where
  "eventLoop lc m [] = Running m"
| "eventLoop lc m (msg # msgs) =
     (case Update lc m msg of
        Inl p \<Rightarrow> Panicked p
      | Inr (m', Quit) \<Rightarrow> Stopped m'
      | Inr (m', NoCmd) \<Rightarrow> eventLoop lc m' msgs)"

subsection \<open>What the filter is specified to keep\<close>

text \<open>
  \<open>f\<close> is a case-insensitive prefix of \<open>s\<close> when the lower-cased \<open>s\<close> starts with the
  lower-cased \<open>f\<close>. Two further readings are compared with it below: on ASCII text,
  \<open>s\<close> starts with characters that equal those of \<open>f\<close> up to the case of letters; on any
  text, the runes of \<open>s\<close> start with runes that equal those of \<open>f\<close> after lower-casing.
\<close>

definition ci_prefix :: "(rune \<Rightarrow> rune) \<Rightarrow> string \<Rightarrow> string \<Rightarrow> bool" where
  "ci_prefix lc f s = prefix (ToLower lc f) (ToLower lc s)"

definition ascii_ci_prefix :: "string \<Rightarrow> string \<Rightarrow> bool" where
  "ascii_ci_prefix f s =
     (length f \<le> length s \<and> list_all2 (\<lambda>a b. lower_char a = lower_char b) f (take (length f) s))"

definition rune_ci_prefix :: "(rune \<Rightarrow> rune) \<Rightarrow> string \<Rightarrow> string \<Rightarrow> bool" where
  "rune_ci_prefix lc f s =
     prefix (map (unicode_ToLower lc) (runes f)) (map (unicode_ToLower lc) (runes s))"

definition filter_matches :: "(rune \<Rightarrow> rune) \<Rightarrow> string \<Rightarrow> Host \<Rightarrow> bool" where
  "filter_matches lc ft h =
     (prefix ft (Sprintf_d (MenuNumber h)) \<or> ci_prefix lc ft (ShortName h)
      \<or> ci_prefix lc ft (LongName h))"

text \<open>
  A rune that can be encoded: a code point of Unicode that is not a surrogate. A case
  table is well formed when it maps such runes above ASCII to such runes.
\<close>

definition valid_rune :: "rune \<Rightarrow> bool" where
  "valid_rune r = (0 \<le> r \<and> r \<le> 0x10FFFF \<and> \<not> (0xD800 \<le> r \<and> r \<le> 0xDFFF))"

definition table_ok :: "(rune \<Rightarrow> rune) \<Rightarrow> bool" where
  "table_ok lc = (\<forall>r. valid_rune r \<and> 0x7F < r \<longrightarrow> valid_rune (lc r))"

text \<open>
  An example of a case table: the capital letters of the Latin-1 supplement, \<open>U+00C0\<close> to
  \<open>U+00DE\<close> without the multiplication sign, lie 32 below their small letters.
\<close>

definition latin1_table :: "rune \<Rightarrow> rune" where
  "latin1_table r = (if 0xC0 \<le> r \<and> r \<le> 0xDE \<and> r \<noteq> 0xD7 then r + 32 else r)"

text \<open>The cursor is inside the filtered list, or the list is empty and the cursor is 0 or -1.\<close>

definition cursor_ok :: "Model \<Rightarrow> bool" where
  "cursor_ok m =
     (if filteredHosts m = [] then cursor m = 0 \<or> cursor m = - 1
      else 0 \<le> cursor m \<and> cursor m < int (length (filteredHosts m)))"

definition numbered_hosts :: "Host list" where
  "numbered_hosts =
     [mkHost ''alpha'' 1 [], mkHost ''beta'' 2 [''x''], mkHost ''gamma'' 10 [],
      mkHost ''delta'' 11 [''x''], mkHost ''Epsilon'' 100 []]"

text \<open>
  Hosts whose names start with \<open>U+00C9\<close> (capital E with acute), with \<open>U+00E9\<close> (the
  small letter) and with a byte outside every encoding, for a filter text that holds
  \<open>U+00E9\<close>, or only its first byte after Backspace.
\<close>

definition accented_hosts :: "Host list" where
  "accented_hosts =
     [mkHost (CHR 0xC3 # CHR 0x89 # ''cole'') 1 [], mkHost (CHR 0xC3 # CHR 0xA9 # ''cho'') 2 [],
      mkHost (CHR 0xFF # ''abc'') 3 [], mkHost ''zurich'' 4 []]"

definition filtering_model :: Model where
  "filtering_model =
     \<lparr>hosts = numbered_hosts, Selected = None, verbose = False, detailed = False,
      sshOpts = [], cursor = 0, viewIndex = 0, groups = [''x'', ''Ungrouped''],
      filteredHosts = numbered_hosts, filterText = ''1'', width = 0, height = 0\<rparr>"

definition selector_start :: Model where
  "selector_start =
     \<lparr>hosts = numbered_hosts, Selected = None, verbose = False, detailed = False,
      sshOpts = [], cursor = 0, viewIndex = 0, groups = [''x'', ''Ungrouped''],
      filteredHosts = numbered_hosts, filterText = [], width = 0, height = 0\<rparr>"

chapter \<open>Properties\<close>

section \<open>sort.Slice on distinct elements\<close>

text \<open>
  Any arrangement of pairwise distinct elements that is a permutation of the input and
  in which no element is \<open>less\<close> than one before it is the arrangement insertion sort
  computes, provided \<open>less\<close> is a strict total order on the input.
\<close>

lemma sorted_wrt_unique:
  assumes "\<And>x. \<not> lt x x" and "\<And>x y. lt x y \<Longrightarrow> \<not> lt y x"
  shows "sorted_wrt lt xs \<Longrightarrow> sorted_wrt lt ys \<Longrightarrow> set xs = set ys \<Longrightarrow> xs = ys"
proof (induction xs arbitrary: ys)
  case Nil
  then show ?case by simp
next
  case (Cons x xs)
  then obtain y ys' where ys: "ys = y # ys'" by (cases ys) auto
  have xy: "x = y"
  proof (rule ccontr)
    assume "x \<noteq> y"
    then have "x \<in> set ys'" "y \<in> set xs" using Cons.prems(3) ys by auto
    then have "lt y x" "lt x y" using Cons.prems(1,2) ys by auto
    then show False using assms(2) by blast
  qed
  have "x \<notin> set xs" "y \<notin> set ys'" using Cons.prems(1,2) ys assms(1) by auto
  then have "set xs = set ys'" using Cons.prems(3) ys xy by auto
  then have "xs = ys'" using Cons.IH [of ys'] Cons.prems(1,2) ys by simp
  then show ?case using xy ys by simp
qed

lemma set_insert_Slice: "set (insert_Slice lt x ys) = insert x (set ys)"
  by (induction ys) auto

lemma set_sort_Slice: "set (sort_Slice lt xs) = set xs"
  by (induction xs) (simp_all add: sort_Slice_def set_insert_Slice)

lemma mset_insert_Slice: "mset (insert_Slice lt x ys) = add_mset x (mset ys)"
  by (induction ys) auto

lemma mset_sort_Slice: "mset (sort_Slice lt xs) = mset xs"
  by (induction xs) (simp_all add: sort_Slice_def mset_insert_Slice)

lemma sorted_insert_Slice:
  assumes tr: "\<And>a b c. lt a b \<Longrightarrow> lt b c \<Longrightarrow> lt a c"
    and tot: "\<And>y. y \<in> set ys \<Longrightarrow> lt x y \<or> lt y x"
  shows "sorted_wrt lt ys \<Longrightarrow> sorted_wrt lt (insert_Slice lt x ys)"
  using tot
proof (induction ys)
  case Nil
  then show ?case by simp
next
  case (Cons y ys)
  show ?case
  proof (cases "lt y x")
    case True
    then show ?thesis using Cons by (auto simp: set_insert_Slice)
  next
    case False
    then have "lt x y" using Cons.prems(2) by auto
    then show ?thesis using False Cons.prems(1) tr by auto
  qed
qed

lemma sorted_sort_Slice:
  assumes tr: "\<And>a b c. lt a b \<Longrightarrow> lt b c \<Longrightarrow> lt a c"
  shows "distinct xs \<Longrightarrow> (\<And>a b. a \<in> set xs \<Longrightarrow> b \<in> set xs \<Longrightarrow> a \<noteq> b \<Longrightarrow> lt a b \<or> lt b a) \<Longrightarrow>
     sorted_wrt lt (sort_Slice lt xs)"
proof (induction xs)
  case Nil
  then show ?case by (simp add: sort_Slice_def)
next
  case (Cons x xs)
  have s: "sorted_wrt lt (sort_Slice lt xs)" using Cons by auto
  have "\<And>y. y \<in> set (sort_Slice lt xs) \<Longrightarrow> lt x y \<or> lt y x"
    using Cons.prems by (auto simp: set_sort_Slice)
  then have "sorted_wrt lt (insert_Slice lt x (sort_Slice lt xs))"
    using sorted_insert_Slice [of lt "sort_Slice lt xs" x] tr s by blast
  then show ?case by (simp add: sort_Slice_def)
qed

lemma sort_Slice_unique:
  assumes irr: "\<And>x. \<not> lt x x"
    and tr: "\<And>a b c. lt a b \<Longrightarrow> lt b c \<Longrightarrow> lt a c"
    and tot: "\<And>a b. a \<in> set xs \<Longrightarrow> b \<in> set xs \<Longrightarrow> a \<noteq> b \<Longrightarrow> lt a b \<or> lt b a"
    and d: "distinct xs"
    and perm: "mset ys = mset xs"
    and sorted: "sorted_wrt (\<lambda>a b. \<not> lt b a) ys"
  shows "ys = sort_Slice lt xs"
proof -
  have asym: "\<And>x y. lt x y \<Longrightarrow> \<not> lt y x" using irr tr by blast
  have sy: "set ys = set xs" using perm by (metis set_mset_mset)
  have dy: "distinct ys" using perm d by (metis mset_eq_imp_distinct_iff)
  have "sorted_wrt (\<lambda>a b. a \<noteq> b \<and> a \<in> set ys \<and> b \<in> set ys \<and> \<not> lt b a) ys"
    using sorted dy by (induction ys) (auto intro: sorted_wrt_mono_rel [rotated])
  then have "sorted_wrt lt ys"
    by (rule sorted_wrt_mono_rel [rotated]) (use tot sy in blast)
  moreover have "sorted_wrt lt (sort_Slice lt xs)" using sorted_sort_Slice [of lt xs] tr d tot by blast
  moreover have "set ys = set (sort_Slice lt xs)" using sy by (simp add: set_sort_Slice)
  ultimately show ?thesis using sorted_wrt_unique [of lt ys "sort_Slice lt xs"] irr asym by blast
qed


section \<open>UTF-8: decoding inverts encoding\<close>

lemma of_char_int_bounds: "0 \<le> (of_char c :: int) \<and> (of_char c :: int) < 256"
proof -
  have "(of_char c :: int) = int (of_char c :: nat)" by (simp only: of_nat_of_char)
  moreover have "(of_char c :: nat) < 256" by simp
  ultimately show ?thesis by simp
qed

lemma acceptRange_cases:
  assumes "acceptRange s0 = Some (sz, lo, hi)"
  shows "(sz = 2 \<and> 0xC2 \<le> s0 \<and> s0 \<le> 0xDF \<and> lo = 0x80 \<and> hi = 0xBF)
       \<or> (sz = 3 \<and> s0 = 0xE0 \<and> lo = 0xA0 \<and> hi = 0xBF)
       \<or> (sz = 3 \<and> 0xE1 \<le> s0 \<and> s0 \<le> 0xEF \<and> s0 \<noteq> 0xED \<and> lo = 0x80 \<and> hi = 0xBF)
       \<or> (sz = 3 \<and> s0 = 0xED \<and> lo = 0x80 \<and> hi = 0x9F)
       \<or> (sz = 4 \<and> s0 = 0xF0 \<and> lo = 0x90 \<and> hi = 0xBF)
       \<or> (sz = 4 \<and> 0xF1 \<le> s0 \<and> s0 \<le> 0xF3 \<and> lo = 0x80 \<and> hi = 0xBF)
       \<or> (sz = 4 \<and> s0 = 0xF4 \<and> lo = 0x80 \<and> hi = 0x8F)"
  using assms by (simp add: acceptRange_def split: if_splits)

lemma mod_window:
  fixes x :: int
  assumes "k * m \<le> x" and "x < k * m + m"
  shows "x mod m = x - k * m"
proof -
  have "(x - k * m + k * m) mod m = (x - k * m) mod m" by (rule mod_mult_self1)
  then have "x mod m = (x - k * m) mod m" by simp
  also have "\<dots> = x - k * m" using assms by simp
  finally show ?thesis .
qed

lemma cont_mod: "(0x80::int) \<le> s \<Longrightarrow> s \<le> 0xBF \<Longrightarrow> s mod 64 = s - 128"
  using mod_window [of 2 64 s] by simp

lemma lead2_mod: "(0xC0::int) \<le> s \<Longrightarrow> s \<le> 0xDF \<Longrightarrow> s mod 32 = s - 192"
  using mod_window [of 6 32 s] by simp

lemma lead3_mod: "(0xE0::int) \<le> s \<Longrightarrow> s \<le> 0xEF \<Longrightarrow> s mod 16 = s - 224"
  using mod_window [of 14 16 s] by simp

lemma lead4_mod: "(0xF0::int) \<le> s \<Longrightarrow> s \<le> 0xF7 \<Longrightarrow> s mod 8 = s - 240"
  using mod_window [of 30 8 s] by simp

lemma valid2:
  assumes "acceptRange s0 = Some (2, lo, hi)" "lo \<le> s1" "s1 \<le> hi"
  shows "valid_rune (s0 mod 32 * 64 + s1 mod 64)"
proof -
  have b: "0xC2 \<le> s0" "s0 \<le> 0xDF" "0x80 \<le> s1" "s1 \<le> 0xBF"
    using acceptRange_cases [OF assms(1)] assms(2,3) by auto
  have "s0 mod 32 = s0 - 192" "s1 mod 64 = s1 - 128"
    using b by (simp_all add: lead2_mod cont_mod)
  then show ?thesis using b by (simp add: valid_rune_def)
qed

lemma valid3:
  assumes "acceptRange s0 = Some (3, lo, hi)" "lo \<le> s1" "s1 \<le> hi" "0x80 \<le> s2" "s2 \<le> 0xBF"
  shows "valid_rune (s0 mod 16 * 4096 + s1 mod 64 * 64 + s2 mod 64)"
proof -
  have b: "0xE0 \<le> s0" "s0 \<le> 0xEF" "0x80 \<le> s1" "s1 \<le> 0xBF" "s0 = 0xED \<longrightarrow> s1 \<le> 0x9F"
    using acceptRange_cases [OF assms(1)] assms(2,3) by auto
  have m: "s0 mod 16 = s0 - 224" "s1 mod 64 = s1 - 128" "s2 mod 64 = s2 - 128"
    using b assms(4,5) by (simp_all add: lead3_mod cont_mod)
  consider "s0 \<le> 0xEC" | "s0 = 0xED" | "0xEE \<le> s0" by linarith
  then show ?thesis
  proof cases
    case 1
    then show ?thesis using b assms(4,5) by (simp add: valid_rune_def m)
  next
    case 2
    then show ?thesis using b assms(4,5) by (simp add: valid_rune_def m)
  next
    case 3
    then show ?thesis using b assms(4,5) by (simp add: valid_rune_def m)
  qed
qed

lemma valid4:
  assumes "acceptRange s0 = Some (4, lo, hi)" "lo \<le> s1" "s1 \<le> hi" "0x80 \<le> s2" "s2 \<le> 0xBF"
   "0x80 \<le> s3" "s3 \<le> 0xBF"
  shows "valid_rune (s0 mod 8 * 262144 + s1 mod 64 * 4096 + s2 mod 64 * 64 + s3 mod 64)"
proof -
  have b: "0xF0 \<le> s0" "s0 \<le> 0xF4" "0x80 \<le> s1" "s1 \<le> 0xBF" "s0 = 0xF4 \<longrightarrow> s1 \<le> 0x8F"
    "s0 = 0xF0 \<longrightarrow> 0x90 \<le> s1"
    using acceptRange_cases [OF assms(1)] assms(2,3) by auto
  have m: "s0 mod 8 = s0 - 240" "s1 mod 64 = s1 - 128" "s2 mod 64 = s2 - 128" "s3 mod 64 = s3 - 128"
    using b assms(4-7) by (simp_all add: lead4_mod cont_mod)
  consider "s0 = 0xF0" | "0xF1 \<le> s0 \<and> s0 \<le> 0xF3" | "s0 = 0xF4" using b(1,2) by linarith
  then show ?thesis
  proof cases
    case 1
    then show ?thesis using b assms(4-7) by (simp add: valid_rune_def m)
  next
    case 2
    then show ?thesis using b assms(4-7) by (simp add: valid_rune_def m)
  next
    case 3
    then show ?thesis using b assms(4-7) by (simp add: valid_rune_def m)
  qed
qed

lemma acceptRange_size:
  "acceptRange s0 = Some (sz, lo, hi) \<Longrightarrow> sz = 2 \<or> sz = 3 \<or> sz = 4"
  using acceptRange_cases [of s0 sz lo hi] by auto

lemma Decode_valid: "valid_rune (fst (DecodeRuneInString s))"
proof (cases s)
  case Nil
  then show ?thesis by (simp add: valid_rune_def RuneError_def)
next
  case (Cons c0 cs)
  have E: "valid_rune RuneError" by (simp add: valid_rune_def RuneError_def)
  show ?thesis
  proof (cases "(of_char c0 :: int) < 0x80")
    case True
    then show ?thesis
      using of_char_int_bounds [of c0]
      by (simp add: Cons DecodeRuneInString.simps(2) valid_rune_def)
  next
    case False
    show ?thesis
    proof (cases "acceptRange (of_char c0)")
      case None
      then show ?thesis using False E by (simp add: Cons DecodeRuneInString.simps(2))
    next
      case (Some t)
      obtain sz lo hi where t: "t = (sz, lo, hi)" by (cases t)
      note ar = Some [unfolded t]
      consider "sz = 2" | "sz = 3" | "sz = 4" using acceptRange_size [OF ar] by blast
      then show ?thesis
      proof cases
        case 1
        then show ?thesis
          using False E ar valid2 [of "of_char c0" lo hi "of_char (cs ! 0)"]
          by (simp add: Cons DecodeRuneInString.simps(2) Let_def)
      next
        case 2
        then show ?thesis
          using False E ar valid3 [of "of_char c0" lo hi "of_char (cs ! 0)" "of_char (cs ! 1)"]
          by (simp add: Cons DecodeRuneInString.simps(2) Let_def)
      next
        case 3
        then show ?thesis
          using False E ar
            valid4 [of "of_char c0" lo hi "of_char (cs ! 0)" "of_char (cs ! 1)" "of_char (cs ! 2)"]
          by (simp add: Cons DecodeRuneInString.simps(2) Let_def)
      qed
    qed
  qed
qed

lemma runes_valid: "r \<in> set (runes s) \<Longrightarrow> valid_rune r"
proof (induction s arbitrary: r rule: runes.induct)
  case (1 s)
  show ?case
  proof (cases "s = []")
    case True
    then show ?thesis using 1(2) by (simp add: runes.simps)
  next
    case False
    then have "r = fst (DecodeRuneInString s) \<or> r \<in> set (runes (drop (snd (DecodeRuneInString s)) s))"
      using 1(2) by (subst (asm) runes.simps) simp
    then show ?thesis using Decode_valid 1(1) [OF False] by blast
  qed
qed

lemma of_char_char_of_byte:
  "0 \<le> i \<Longrightarrow> i < 256 \<Longrightarrow> (of_char (char_of (i::int)) :: int) = i"
  by simp

lemma cont_byte:
  assumes "0 \<le> m" "m < 64"
  shows "(of_char (char_of (0x80 + m :: int)) :: int) = 0x80 + m"
    and "(0x80 + m) mod 64 = m"
    and "(0x80::int) \<le> 0x80 + m" and "0x80 + m \<le> (0xBF::int)"
  using assms cont_mod [of "0x80 + m"] by simp_all

lemma digits64:
  fixes r :: int
  shows "r = r div 64 * 64 + r mod 64" and "0 \<le> r mod 64" and "r mod 64 < 64"
  by simp_all

lemma roundtrip1:
  assumes "0 \<le> r" "r \<le> 0x7F"
  shows "DecodeRuneInString (char_of r # x) = (r, 1)"
  using assms by (simp add: DecodeRuneInString.simps(2))

lemma roundtrip2:
  assumes "0x80 \<le> r" "r \<le> 0x7FF"
  shows "DecodeRuneInString (char_of (0xC0 + r div 64) # char_of (0x80 + r mod 64) # x) = (r, 2)"
proof -
  define q where "q = r div 64"
  define m0 where "m0 = r mod 64"
  have r: "r = q * 64 + m0" and m0: "0 \<le> m0" "m0 < 64"
    unfolding q_def m0_def by simp_all
  have q: "2 \<le> q" "q \<le> 31" using r m0 assms by linarith+
  have b0: "(of_char (char_of (0xC0 + q)) :: int) = 0xC0 + q" using q by simp
  have a: "acceptRange (0xC0 + q) = Some (2, 0x80, 0xBF)" using q by (simp add: acceptRange_def)
  have v: "(0xC0 + q) mod 32 = q" using lead2_mod [of "0xC0 + q"] q by simp
  show ?thesis
    unfolding q_def [symmetric] m0_def [symmetric]
    using q m0 by (simp add: DecodeRuneInString.simps(2) b0 a v cont_byte r)
qed


lemma roundtrip3:
  assumes "0x800 \<le> r" "r \<le> 0xFFFF" "\<not> (0xD800 \<le> r \<and> r \<le> 0xDFFF)"
  shows "DecodeRuneInString (encode3 r @ x) = (r, 3)"
proof -
  define q where "q = r div 64 div 64"
  define m1 where "m1 = r div 64 mod 64"
  define m0 where "m0 = r mod 64"
  have q4096: "r div 4096 = q" unfolding q_def by (simp add: zdiv_zmult2_eq)
  have r1: "r div 64 = q * 64 + m1" unfolding q_def m1_def by simp
  have r0: "r = r div 64 * 64 + m0" unfolding m0_def by simp
  have r: "r = q * 4096 + m1 * 64 + m0" using r0 r1 by simp
  have m: "0 \<le> m0" "m0 < 64" "0 \<le> m1" "m1 < 64" unfolding m1_def m0_def by simp_all
  have q: "0 \<le> q" "q \<le> 15" using r m assms by linarith+
  have q0: "q = 0 \<longrightarrow> 32 \<le> m1" using r m assms by linarith
  have q13: "q = 13 \<longrightarrow> m1 \<le> 31" using r m assms by linarith
  have e: "encode3 r = [char_of (0xE0 + q), char_of (0x80 + m1), char_of (0x80 + m0)]"
    by (simp add: encode3_def q4096 m1_def m0_def)
  have b0: "(of_char (char_of (0xE0 + q)) :: int) = 0xE0 + q" using q by simp
  have a: "acceptRange (0xE0 + q)
           = Some (3, if q = 0 then 0xA0 else 0x80, if q = 13 then 0x9F else 0xBF)"
    using q by (simp add: acceptRange_def)
  have v: "(0xE0 + q) mod 16 = q" using lead3_mod [of "0xE0 + q"] q by simp
  have "DecodeRuneInString ([char_of (0xE0 + q), char_of (0x80 + m1), char_of (0x80 + m0)] @ x)
        = (q * 4096 + m1 * 64 + m0, 3)"
    using q m q0 q13 by (auto simp: DecodeRuneInString.simps(2) Let_def b0 a v cont_byte)
  then show ?thesis by (simp only: e r [symmetric])
qed


lemma roundtrip4:
  assumes "0x10000 \<le> r" "r \<le> 0x10FFFF"
  shows "DecodeRuneInString
           (char_of (0xF0 + r div 262144) # char_of (0x80 + r div 4096 mod 64)
            # char_of (0x80 + r div 64 mod 64) # char_of (0x80 + r mod 64) # x) = (r, 4)"
proof -
  define q where "q = r div 64 div 64 div 64"
  define m2 where "m2 = r div 64 div 64 mod 64"
  define m1 where "m1 = r div 64 mod 64"
  define m0 where "m0 = r mod 64"
  have q4096: "r div 4096 = r div 64 div 64" by (simp add: zdiv_zmult2_eq)
  have q262144: "r div 262144 = q" unfolding q_def by (simp add: zdiv_zmult2_eq)
  have r2: "r div 64 div 64 = q * 64 + m2" unfolding q_def m2_def by simp
  have r1: "r div 64 = r div 64 div 64 * 64 + m1" unfolding m1_def by simp
  have r0: "r = r div 64 * 64 + m0" unfolding m0_def by simp
  have r: "r = q * 262144 + m2 * 4096 + m1 * 64 + m0" using r0 r1 r2 by simp
  have m: "0 \<le> m0" "m0 < 64" "0 \<le> m1" "m1 < 64" "0 \<le> m2" "m2 < 64"
    unfolding m2_def m1_def m0_def by simp_all
  have q: "0 \<le> q" "q \<le> 4" using r m assms by linarith+
  have q0: "q = 0 \<longrightarrow> 16 \<le> m2" using r m assms by linarith
  have q4: "q = 4 \<longrightarrow> m2 \<le> 15" using r m assms by linarith
  have b0: "(of_char (char_of (0xF0 + q)) :: int) = 0xF0 + q" using q by simp
  have a: "acceptRange (0xF0 + q)
           = Some (4, if q = 0 then 0x90 else 0x80, if q = 4 then 0x8F else 0xBF)"
    using q by (simp add: acceptRange_def)
  have v: "(0xF0 + q) mod 8 = q" using lead4_mod [of "0xF0 + q"] q by simp
  have "DecodeRuneInString
           (char_of (0xF0 + q) # char_of (0x80 + m2) # char_of (0x80 + m1) # char_of (0x80 + m0) # x)
        = (q * 262144 + m2 * 4096 + m1 * 64 + m0, 4)"
    using q m q0 q4 by (auto simp: DecodeRuneInString.simps(2) Let_def b0 a v cont_byte)
  then show ?thesis
    by (simp only: q262144 q4096 m2_def [symmetric] m1_def [symmetric] m0_def [symmetric] r [symmetric])
qed

lemma AppendRune_cases:
  assumes "valid_rune r"
  shows "(r \<le> 0x7F \<and> AppendRune r = [char_of r])
       \<or> (0x80 \<le> r \<and> r \<le> 0x7FF \<and> AppendRune r = [char_of (0xC0 + r div 64), char_of (0x80 + r mod 64)])
       \<or> (0x800 \<le> r \<and> r \<le> 0xFFFF \<and> AppendRune r = encode3 r)
       \<or> (0x10000 \<le> r \<and> r \<le> 0x10FFFF \<and> AppendRune r =
             [char_of (0xF0 + r div 262144), char_of (0x80 + r div 4096 mod 64),
              char_of (0x80 + r div 64 mod 64), char_of (0x80 + r mod 64)])"
proof -
  have b: "0 \<le> r" "r \<le> 0x10FFFF" "\<not> (0xD800 \<le> r \<and> r \<le> 0xDFFF)"
    using assms by (simp_all add: valid_rune_def)
  have m: "r mod 2 ^ 32 = r" using b by simp
  show ?thesis using b unfolding AppendRune_def m Let_def by auto
qed

lemma AppendRune_roundtrip:
  assumes "valid_rune r"
  shows "DecodeRuneInString (AppendRune r @ x) = (r, length (AppendRune r))"
proof -
  have b: "0 \<le> r" "\<not> (0xD800 \<le> r \<and> r \<le> 0xDFFF)"
    using assms by (simp_all add: valid_rune_def)
  consider (1) "r \<le> 0x7F" "AppendRune r = [char_of r]"
    | (2) "0x80 \<le> r" "r \<le> 0x7FF" "AppendRune r = [char_of (0xC0 + r div 64), char_of (0x80 + r mod 64)]"
    | (3) "0x800 \<le> r" "r \<le> 0xFFFF" "AppendRune r = encode3 r"
    | (4) "0x10000 \<le> r" "r \<le> 0x10FFFF" "AppendRune r =
             [char_of (0xF0 + r div 262144), char_of (0x80 + r div 4096 mod 64),
              char_of (0x80 + r div 64 mod 64), char_of (0x80 + r mod 64)]"
    using AppendRune_cases [OF assms] by blast
  then show ?thesis
  proof cases
    case 1
    then show ?thesis using roundtrip1 [of r x] b by simp
  next
    case 2
    then show ?thesis using roundtrip2 [of r x] by simp
  next
    case 3
    then show ?thesis using roundtrip3 [of r x] b by (simp add: encode3_def)
  next
    case 4
    then show ?thesis using roundtrip4 [of r x] by simp
  qed
qed

lemma AppendRune_nonempty: "AppendRune r \<noteq> []"
  by (simp add: AppendRune_def encode3_def Let_def)

lemma runes_AppendRune:
  assumes "valid_rune r"
  shows "runes (AppendRune r @ x) = r # runes x"
proof -
  have "AppendRune r @ x \<noteq> []" using AppendRune_nonempty by simp
  then have "runes (AppendRune r @ x)
      = fst (DecodeRuneInString (AppendRune r @ x))
        # runes (drop (snd (DecodeRuneInString (AppendRune r @ x))) (AppendRune r @ x))"
    by (subst runes.simps) simp
  then show ?thesis by (simp add: AppendRune_roundtrip [OF assms])
qed

lemma runes_Nil: "runes [] = []"
  by (simp add: runes.simps)

lemma runes_encode:
  "\<forall>r \<in> set rs. valid_rune r \<Longrightarrow> runes (concat (map AppendRune rs) @ x) = rs @ runes x"
  by (induction rs) (simp_all add: runes_AppendRune)

lemma prefix_encode:
  assumes "\<forall>r \<in> set as. valid_rune r" and "\<forall>r \<in> set bs. valid_rune r"
  shows "prefix (concat (map AppendRune as)) (concat (map AppendRune bs)) \<longleftrightarrow> prefix as bs"
proof
  assume "prefix as bs"
  then obtain cs where "bs = as @ cs" by (auto simp: prefix_def)
  then show "prefix (concat (map AppendRune as)) (concat (map AppendRune bs))" by simp
next
  assume "prefix (concat (map AppendRune as)) (concat (map AppendRune bs))"
  then obtain z where z: "concat (map AppendRune bs) = concat (map AppendRune as) @ z"
    by (auto simp: prefix_def)
  have "runes (concat (map AppendRune bs) @ []) = bs @ runes []"
    using assms(2) by (rule runes_encode)
  moreover have "runes (concat (map AppendRune as) @ z) = as @ runes z"
    using assms(1) by (rule runes_encode)
  ultimately have "bs = as @ runes z" using z by (simp add: runes_Nil)
  then show "prefix as bs" by simp
qed

lemma of_char_int_nat: "(of_char c :: int) = int (of_char c :: nat)"
  by (simp only: of_nat_of_char)

lemma AppendRune_ascii:
  assumes "0 \<le> v" "v \<le> 0x7F"
  shows "AppendRune v = [char_of v]"
proof -
  have "v mod 2 ^ 32 = v" using assms by simp
  then show ?thesis using assms by (simp add: AppendRune_def)
qed

lemma AppendRune_lower_ascii:
  assumes "(of_char c :: int) < 0x80"
  shows "AppendRune (unicode_ToLower lc (of_char c)) = [lower_char c]"
proof -
  let ?v = "of_char c :: int"
  have b: "0 \<le> ?v" using of_char_int_bounds by simp
  show ?thesis
  proof (cases "65 \<le> ?v \<and> ?v \<le> 90")
    case True
    then have n: "65 \<le> (of_char c :: nat) \<and> (of_char c :: nat) \<le> 90"
      by (simp add: of_char_int_nat)
    have "?v + 32 = int ((of_char c :: nat) + 32)" by (simp add: of_char_int_nat)
    then have e: "char_of (?v + 32) = char_of ((of_char c :: nat) + 32)"
      by (simp only: char_of_nat)
    have u: "unicode_ToLower lc ?v = ?v + 32" using True by (simp add: unicode_ToLower_def)
    have l: "lower_char c = char_of ((of_char c :: nat) + 32)" using n by (simp add: lower_char_def)
    have "AppendRune (?v + 32) = [char_of (?v + 32)]"
      using True by (intro AppendRune_ascii) simp_all
    then show ?thesis by (simp only: u l e)
  next
    case False
    then have n: "\<not> (65 \<le> (of_char c :: nat) \<and> (of_char c :: nat) \<le> 90)"
      by (simp add: of_char_int_nat)
    have u: "unicode_ToLower lc ?v = ?v" using False assms by (auto simp: unicode_ToLower_def)
    have l: "lower_char c = c" using n by (auto simp: lower_char_def)
    have "AppendRune ?v = [char_of ?v]"
      using b assms by (intro AppendRune_ascii) simp_all
    then show ?thesis by (simp add: u l)
  qed
qed

lemma runes_ascii:
  assumes "(of_char c :: int) < 0x80"
  shows "runes (c # cs) = of_char c # runes cs"
proof -
  have "DecodeRuneInString (c # cs) = (of_char c, 1)"
    using assms by (simp add: DecodeRuneInString.simps(2))
  then show ?thesis by (subst runes.simps) simp
qed

lemma strings_Map_ascii:
  "isASCII s \<Longrightarrow> strings_Map (unicode_ToLower lc) s = map lower_char s"
proof (induction s)
  case Nil
  then show ?case by (simp add: strings_Map_def runes_Nil)
next
  case (Cons c cs)
  then have c: "(of_char c :: int) < 0x80" and cs: "isASCII cs" by (simp_all add: isASCII_def)
  have nn: "0 \<le> unicode_ToLower lc (of_char c)"
    using c of_char_int_bounds [of c] by (simp add: unicode_ToLower_def)
  have "strings_Map (unicode_ToLower lc) (c # cs)
        = AppendRune (unicode_ToLower lc (of_char c)) @ strings_Map (unicode_ToLower lc) cs"
    using nn by (simp add: strings_Map_def runes_ascii [OF c])
  then show ?case using Cons.IH [OF cs] AppendRune_lower_ascii [OF c] by simp
qed

lemma ToLower_Map: "ToLower lc s = strings_Map (unicode_ToLower lc) s"
  by (simp add: ToLower_def strings_Map_ascii)

lemma unicode_ToLower_valid:
  assumes "table_ok lc" and "valid_rune r"
  shows "valid_rune (unicode_ToLower lc r)"
proof (cases "r \<le> 0x7F")
  case True
  then show ?thesis using assms(2) by (simp add: unicode_ToLower_def valid_rune_def)
next
  case False
  then show ?thesis using assms by (simp add: unicode_ToLower_def table_ok_def)
qed

lemma ToLower_encode:
  assumes "table_ok lc"
  shows "ToLower lc s = concat (map AppendRune (map (unicode_ToLower lc) (runes s)))"
proof -
  have "\<And>r. r \<in> set (runes s) \<Longrightarrow> 0 \<le> unicode_ToLower lc r"
    using unicode_ToLower_valid [OF assms] runes_valid by (simp add: valid_rune_def)
  then show ?thesis by (simp add: ToLower_Map strings_Map_def cong: map_cong)
qed

lemma ci_prefix_runes:
  assumes "table_ok lc"
  shows "ci_prefix lc f s \<longleftrightarrow> rune_ci_prefix lc f s"
proof -
  have v: "\<forall>r \<in> set (map (unicode_ToLower lc) (runes x)). valid_rune r" for x
    using unicode_ToLower_valid [OF assms] runes_valid by auto
  show ?thesis
    unfolding ci_prefix_def rune_ci_prefix_def ToLower_encode [OF assms]
    using v [of f] v [of s] by (rule prefix_encode)
qed

lemma runes_ToLower:
  assumes "table_ok lc"
  shows "runes (ToLower lc s) = map (unicode_ToLower lc) (runes s)"
proof -
  have v: "\<forall>r \<in> set (map (unicode_ToLower lc) (runes s)). valid_rune r"
    using unicode_ToLower_valid [OF assms] runes_valid by auto
  have "runes (concat (map AppendRune (map (unicode_ToLower lc) (runes s))) @ [])
        = map (unicode_ToLower lc) (runes s) @ runes []"
    using v by (rule runes_encode)
  then show ?thesis by (simp add: ToLower_encode [OF assms] runes_Nil)
qed


section \<open>AssignMenuNumbers\<close>

lemma collectExplicit_used_hit:
  "x \<in> set used \<Longrightarrow> x \<noteq> 0 \<Longrightarrow> x \<in> MenuNumber ` set hs \<Longrightarrow>
   \<exists>n s. collectExplicit hs used = Inl (DuplicateMenuNumber n s)"
  by (induction hs arbitrary: used) auto

lemma collectExplicit_dup:
  "\<not> distinct (filter (\<lambda>n. n \<noteq> 0) (map MenuNumber hs)) \<Longrightarrow>
   \<exists>n s. collectExplicit hs used = Inl (DuplicateMenuNumber n s)"
proof (induction hs arbitrary: used)
  case Nil
  then show ?case by simp
next
  case (Cons h hs)
  show ?case
  proof (cases "MenuNumber h \<noteq> 0 \<and> MenuNumber h \<notin> set used \<and> MenuNumber h \<in> MenuNumber ` set hs")
    case True
    then show ?thesis
      using collectExplicit_used_hit [of "MenuNumber h" "MenuNumber h # used" hs] by simp
  next
    case False
    then show ?thesis using Cons by auto
  qed
qed

lemma collectExplicit_ok:
  "distinct (filter (\<lambda>n. n \<noteq> 0) (map MenuNumber hs)) \<Longrightarrow>
   set used \<inter> explicit_numbers hs = {} \<Longrightarrow>
   \<exists>used'. collectExplicit hs used = Inr used' \<and> set used' = set used \<union> explicit_numbers hs"
proof (induction hs arbitrary: used)
  case Nil
  then show ?case by (simp add: explicit_numbers_def)
next
  case (Cons h hs)
  show ?case
  proof (cases "MenuNumber h = 0")
    case True
    have e: "explicit_numbers (h # hs) = explicit_numbers hs"
      using True by (auto simp: explicit_numbers_def)
    show ?thesis using Cons True by (simp add: e)
  next
    case False
    have e: "explicit_numbers (h # hs) = insert (MenuNumber h) (explicit_numbers hs)"
      using False by (auto simp: explicit_numbers_def)
    have nin: "MenuNumber h \<notin> set used" using Cons.prems(2) e by auto
    have nin2: "MenuNumber h \<notin> explicit_numbers hs"
      using Cons.prems(1) False by (auto simp: explicit_numbers_def)
    have "set (MenuNumber h # used) \<inter> explicit_numbers hs = {}"
      using Cons.prems(2) e nin2 by auto
    moreover have "distinct (filter (\<lambda>n. n \<noteq> 0) (map MenuNumber hs))"
      using Cons.prems(1) by (simp split: if_splits)
    ultimately obtain used' where "collectExplicit hs (MenuNumber h # used) = Inr used'"
      and "set used' = set (MenuNumber h # used) \<union> explicit_numbers hs"
      using Cons.IH by blast
    then show ?thesis using False nin e by auto
  qed
qed

lemma filter_dup_not_distinct:
  "i < j \<Longrightarrow> j < length xs \<Longrightarrow> xs ! i = xs ! j \<Longrightarrow> P (xs ! i) \<Longrightarrow> \<not> distinct (filter P xs)"
proof (induction xs arbitrary: i j)
  case Nil
  then show ?case by simp
next
  case (Cons x xs)
  show ?case
  proof (cases i)
    case 0
    then obtain j' where j: "j = Suc j'" using Cons.prems(1) by (cases j) auto
    then have "x = xs ! j'" "j' < length xs" "P x" using Cons.prems 0 by auto
    then have "x \<in> set (filter P xs)" by auto
    then show ?thesis using \<open>P x\<close> by simp
  next
    case (Suc i')
    then obtain j' where j: "j = Suc j'" using Cons.prems(1) by (cases j) auto
    have "\<not> distinct (filter P xs)"
      using Cons.IH [of i' j'] Cons.prems Suc j by auto
    then show ?thesis by simp
  qed
qed

text \<open>
  Claim C1. When two different entries of the list carry the same explicit (nonzero)
  menu number, \<open>AssignMenuNumbers\<close> ends in the fatal duplicate-number error, whose exit
  status is not zero, whatever else the list holds; it never returns a host list.
\<close>

theorem AssignMenuNumbers_duplicate_fatal:
  assumes "i < j" and "j < length hs"
    and "MenuNumber (hs ! i) = MenuNumber (hs ! j)" and "MenuNumber (hs ! i) \<noteq> 0"
  shows "\<exists>n s. AssignMenuNumbers hs = Inl (DuplicateMenuNumber n s)
           \<and> exit_status (DuplicateMenuNumber n s) \<noteq> 0"
proof -
  have "map MenuNumber hs ! i = map MenuNumber hs ! j" and "map MenuNumber hs ! i \<noteq> 0"
    using assms by simp_all
  then have "\<not> distinct (filter (\<lambda>n. n \<noteq> 0) (map MenuNumber hs))"
    using filter_dup_not_distinct [of i j "map MenuNumber hs" "\<lambda>n. n \<noteq> 0"] assms(1,2) by simp
  then obtain n s where "collectExplicit hs [] = Inl (DuplicateMenuNumber n s)"
    using collectExplicit_dup by blast
  then show ?thesis by (simp add: AssignMenuNumbers_def exit_status_def)
qed

theorem AssignMenuNumbers_duplicate_fatal_witness:
  "AssignMenuNumbers [mkHost ''a'' 5 [], mkHost ''b'' 0 [], mkHost ''c'' 5 []]
     = Inl (DuplicateMenuNumber 5 ''c'')"
proof -
  have "\<exists>n s. AssignMenuNumbers [mkHost ''a'' 5 [], mkHost ''b'' 0 [], mkHost ''c'' 5 []]
       = Inl (DuplicateMenuNumber n s) \<and> exit_status (DuplicateMenuNumber n s) \<noteq> 0"
    using AssignMenuNumbers_duplicate_fatal [of 0 2 "[mkHost ''a'' 5 [], mkHost ''b'' 0 [], mkHost ''c'' 5 []]"]
    by (simp add: mkHost_def)
  then show ?thesis by (auto simp: AssignMenuNumbers_def mkHost_def)
qed

lemma insert_Slice_insort:
  "insert_Slice lessMenuNumber x ys = insort_key MenuNumber x ys"
  by (induction ys) (auto simp: lessMenuNumber_def)

lemma sort_Slice_sort_key:
  "sort_Slice lessMenuNumber xs = sort_key MenuNumber xs"
  by (induction xs) (simp_all add: sort_Slice_def sort_key_def insert_Slice_insort)


lemma skipUsed_props:
  "n \<le> skipUsed used n \<and> skipUsed used n \<notin> set used \<and> (\<forall>k. n \<le> k \<and> k < skipUsed used n \<longrightarrow> k \<in> set used)"
proof (induction used n rule: skipUsed.induct)
  case (1 used n)
  show ?case
  proof (cases "n \<in> set used")
    case True
    then have eq: "skipUsed used n = skipUsed used (n + 1)" by (subst skipUsed.simps) simp
    have ih: "n + 1 \<le> skipUsed used (n + 1) \<and> skipUsed used (n + 1) \<notin> set used \<and>
      (\<forall>k. n + 1 \<le> k \<and> k < skipUsed used (n + 1) \<longrightarrow> k \<in> set used)"
      using "1.IH" True by simp
    have "\<And>k. n \<le> k \<Longrightarrow> k < skipUsed used (n + 1) \<Longrightarrow> k \<in> set used"
    proof -
      fix k assume "n \<le> k" "k < skipUsed used (n + 1)"
      then show "k \<in> set used" using ih True by (cases "k = n") auto
    qed
    then show ?thesis using ih eq by auto
  next
    case False
    then have "skipUsed used n = n" by (subst skipUsed.simps) simp
    then show ?thesis using False by auto
  qed
qed

lemma skipUsed_smallest_free:
  assumes "1 \<le> n" and "\<forall>k. 1 \<le> k \<and> k < n \<longrightarrow> k \<in> set used"
  shows "skipUsed used n = smallest_free (set used)"
proof -
  let ?m = "skipUsed used n"
  have p: "n \<le> ?m" "?m \<notin> set used" "\<forall>k. n \<le> k \<and> k < ?m \<longrightarrow> k \<in> set used"
    using skipUsed_props [of n used] by auto
  have "(LEAST k. 0 < k \<and> k \<notin> set used) = ?m"
  proof (rule Least_equality)
    show "0 < ?m \<and> ?m \<notin> set used" using p assms(1) by auto
  next
    fix y assume y: "0 < y \<and> y \<notin> set used"
    show "?m \<le> y"
    proof (rule ccontr)
      assume "\<not> ?m \<le> y"
      then have "y < ?m" by simp
      then have "y \<in> set used" using p(3) assms(2) y by (cases "y < n") auto
      then show False using y by simp
    qed
  qed
  then show ?thesis by (simp add: smallest_free_def)
qed

lemma assignFree_spec:
  "1 \<le> n \<Longrightarrow> \<forall>k. 1 \<le> k \<and> k < n \<longrightarrow> k \<in> set used \<Longrightarrow>
   assignFree hs used n = assign_spec hs (set used)"
proof (induction hs arbitrary: used n)
  case Nil
  then show ?case by simp
next
  case (Cons h hs)
  show ?case
  proof (cases "MenuNumber h = 0")
    case False
    then show ?thesis using Cons by simp
  next
    case True
    let ?m = "skipUsed used n"
    have m: "?m = smallest_free (set used)"
      using skipUsed_smallest_free Cons.prems by blast
    have p: "n \<le> ?m" "\<forall>k. n \<le> k \<and> k < ?m \<longrightarrow> k \<in> set used"
      using skipUsed_props [of n used] by auto
    have inv: "\<forall>k. 1 \<le> k \<and> k < ?m \<longrightarrow> k \<in> set (?m # used)"
    proof (intro allI impI)
      fix k assume "1 \<le> k \<and> k < ?m"
      then show "k \<in> set (?m # used)" using p(2) Cons.prems(2) by (cases "k < n") auto
    qed
    have "assignFree hs (?m # used) ?m = assign_spec hs (set (?m # used))"
      using Cons.IH [of ?m "?m # used"] inv p(1) Cons.prems(1) by simp
    then show ?thesis using True m by (simp add: Let_def)
  qed
qed

lemma assignFree_distinct:
  "distinct (filter (\<lambda>n. n \<noteq> 0) (map MenuNumber hs)) \<Longrightarrow> explicit_numbers hs \<subseteq> set used \<Longrightarrow>
   distinct (map MenuNumber (assignFree hs used n)) \<and>
   (\<forall>x \<in> set (map MenuNumber (assignFree hs used n)). x \<in> explicit_numbers hs \<or> x \<notin> set used)"
proof (induction hs arbitrary: used n)
  case Nil
  then show ?case by simp
next
  case (Cons h hs)
  show ?case
  proof (cases "MenuNumber h = 0")
    case True
    let ?m = "skipUsed used n"
    let ?r = "assignFree hs (?m # used) ?m"
    have e: "explicit_numbers (h # hs) = explicit_numbers hs"
      using True by (auto simp: explicit_numbers_def)
    have m: "?m \<notin> set used" using skipUsed_props [of n used] by simp
    have ih: "distinct (map MenuNumber ?r) \<and>
        (\<forall>x \<in> set (map MenuNumber ?r). x \<in> explicit_numbers hs \<or> x \<notin> set (?m # used))"
      using Cons.IH [of "?m # used" ?m] Cons.prems True e by auto
    have "?m \<notin> set (map MenuNumber ?r)"
    proof
      assume "?m \<in> set (map MenuNumber ?r)"
      then have "?m \<in> explicit_numbers hs" using ih by auto
      then show False using Cons.prems(2) e m by auto
    qed
    moreover have "assignFree (h # hs) used n = h\<lparr>MenuNumber := ?m\<rparr> # ?r"
      using True by (simp add: Let_def)
    ultimately show ?thesis using ih m e by auto
  next
    case False
    let ?r = "assignFree hs used n"
    have e: "explicit_numbers (h # hs) = insert (MenuNumber h) (explicit_numbers hs)"
      using False by (auto simp: explicit_numbers_def)
    have nin: "MenuNumber h \<notin> explicit_numbers hs"
      using Cons.prems(1) False by (auto simp: explicit_numbers_def)
    have ih: "distinct (map MenuNumber ?r) \<and>
        (\<forall>x \<in> set (map MenuNumber ?r). x \<in> explicit_numbers hs \<or> x \<notin> set used)"
      using Cons.IH [of used n] Cons.prems False e by auto
    have "MenuNumber h \<notin> set (map MenuNumber ?r)"
    proof
      assume a: "MenuNumber h \<in> set (map MenuNumber ?r)"
      have "MenuNumber h \<in> set used" using Cons.prems(2) e by auto
      then show False using ih a nin by auto
    qed
    moreover have "assignFree (h # hs) used n = h # ?r" using False by simp
    ultimately show ?thesis using ih e by auto
  qed
qed

lemma smallest_free_initial: "1 \<le> m \<Longrightarrow> smallest_free {1..<m} = m"
  unfolding smallest_free_def by (rule Least_equality) auto

lemma assignFree_all_zero:
  "\<forall>h \<in> set hs. MenuNumber h = 0 \<Longrightarrow> set used = {1..<m} \<Longrightarrow> 1 \<le> n \<Longrightarrow> n \<le> m \<Longrightarrow>
   assignFree hs used n = map (\<lambda>(i, h). h\<lparr>MenuNumber := m + int i\<rparr>) (enumerate 0 hs)"
proof (induction hs arbitrary: used n m)
  case Nil
  then show ?case by simp
next
  case (Cons h hs)
  have "skipUsed used n = smallest_free (set used)"
    using skipUsed_smallest_free [of n used] Cons.prems by auto
  then have sk: "skipUsed used n = m"
    using Cons.prems smallest_free_initial [of m] by simp
  have "set (m # used) = {1..<m + 1}" using Cons.prems by auto
  then have "assignFree hs (m # used) m
      = map (\<lambda>(i, h). h\<lparr>MenuNumber := (m + 1) + int i\<rparr>) (enumerate 0 hs)"
    using Cons.IH [of "m # used" "m + 1" m] Cons.prems by simp
  also have "\<dots> = map (\<lambda>(i, h). h\<lparr>MenuNumber := m + int i\<rparr>) (enumerate (Suc 0) hs)"
    by (simp add: enumerate_Suc_eq [of 0] comp_def case_prod_beta add.assoc)
  finally show ?case using Cons.prems(1) sk by (simp add: Let_def)
qed

text \<open>
  Claim C4. For a list without duplicate explicit numbers \<open>AssignMenuNumbers\<close> returns
  the entries in which every entry with number 0, taken in list order, has received the
  smallest positive integer outside the used set (that number joining the set at once),
  arranged by ascending menu number, all numbers different. When no entry has an explicit
  number, the entry at position \<open>i\<close> (from 0) carries \<open>i + 1\<close> and the order is the
  original one.
\<close>

theorem AssignMenuNumbers_smallest_free_sorted:
  assumes "distinct (filter (\<lambda>n. n \<noteq> 0) (map MenuNumber hs))"
  shows "\<exists>res. AssignMenuNumbers hs = Inr res
    \<and> mset res = mset (assign_spec hs (explicit_numbers hs))
    \<and> sorted (map MenuNumber res) \<and> distinct (map MenuNumber res)
    \<and> ((\<forall>h \<in> set hs. MenuNumber h = 0) \<longrightarrow>
         length res = length hs \<and> (\<forall>i < length hs. res ! i = (hs ! i)\<lparr>MenuNumber := int i + 1\<rparr>))"
proof -
  obtain used where c: "collectExplicit hs [] = Inr used" and u: "set used = explicit_numbers hs"
    using collectExplicit_ok [of hs "[]"] assms by auto
  define res where "res = sort_Slice lessMenuNumber (assignFree hs used 1)"
  have r: "AssignMenuNumbers hs = Inr res"
    by (simp add: AssignMenuNumbers_def c res_def)
  have sk: "res = sort_key MenuNumber (assignFree hs used 1)"
    by (simp add: res_def sort_Slice_sort_key)
  have sp: "assignFree hs used 1 = assign_spec hs (explicit_numbers hs)"
  proof -
    have "\<forall>k::int. 1 \<le> k \<and> k < 1 \<longrightarrow> k \<in> set used" by auto
    then show ?thesis using assignFree_spec [of 1 used hs] u by simp
  qed
  have m: "mset res = mset (assign_spec hs (explicit_numbers hs))"
    by (simp add: sk sp)
  have so: "sorted (map MenuNumber res)"
    by (simp add: sk)
  have "distinct (map MenuNumber (assignFree hs used 1))"
    using assignFree_distinct [of hs used 1] assms u by simp
  then have di: "distinct (map MenuNumber res)"
    by (metis sk distinct_map distinct_sort set_sort)
  have z: "length res = length hs \<and> (\<forall>i < length hs. res ! i = (hs ! i)\<lparr>MenuNumber := int i + 1\<rparr>)"
    if all0: "\<forall>h \<in> set hs. MenuNumber h = 0"
  proof -
    have "explicit_numbers hs = {}" using all0 by (auto simp: explicit_numbers_def)
    then have "set used = {1..<1::int}" using u by simp
    then have a: "assignFree hs used 1 = map (\<lambda>(i, h). h\<lparr>MenuNumber := 1 + int i\<rparr>) (enumerate 0 hs)"
      using assignFree_all_zero [of hs used 1 1] all0 by simp
    have "map MenuNumber (assignFree hs used 1) = map ((\<lambda>i. 1 + int i) \<circ> fst) (enumerate 0 hs)"
      unfolding a by (simp add: case_prod_beta comp_def)
    also have "\<dots> = map (\<lambda>i. 1 + int i) (map fst (enumerate 0 hs))"
      by (simp only: map_map)
    also have "\<dots> = map (\<lambda>i. 1 + int i) [0..<length hs]"
      by (simp only: map_fst_enumerate) simp
    finally have "map MenuNumber (assignFree hs used 1) = map (\<lambda>i. 1 + int i) [0..<length hs]" .
    moreover have "sorted (map (\<lambda>i. 1 + int i) [0..<length hs])"
      by (simp add: sorted_wrt_map sorted_wrt_iff_nth_less)
    ultimately have "res = assignFree hs used 1"
      using sk sort_key_id_if_sorted by metis
    then show ?thesis
      by (simp add: a nth_enumerate_eq add.commute)
  qed
  show ?thesis using r m so di z by blast
qed

theorem AssignMenuNumbers_smallest_free_sorted_witness:
  "distinct (filter (\<lambda>n. n \<noteq> 0) (map MenuNumber example_hosts)) \<and>
   (\<exists>res. AssignMenuNumbers example_hosts = Inr res
      \<and> map (\<lambda>h. (ShortName h, MenuNumber h)) res = [(''db'', 1), (''web1'', 2), (''lb'', 3)]
      \<and> sorted (map MenuNumber res) \<and> distinct (map MenuNumber res))"
proof -
  have d: "distinct (filter (\<lambda>n. n \<noteq> 0) (map MenuNumber example_hosts))"
    by (simp add: example_hosts_def mkHost_def)
  have v: "map (\<lambda>h. (ShortName h, MenuNumber h)) (projr (AssignMenuNumbers example_hosts))
      = [(''db'', 1), (''web1'', 2), (''lb'', 3)]"
    by code_simp
  show ?thesis
    using d v AssignMenuNumbers_smallest_free_sorted [OF d] by auto
qed

section \<open>GetAllGroups\<close>

lemma set_setKey: "set (setKey g ks) = insert g (set ks)"
  by (auto simp: setKey_def)

lemma distinct_setKey: "distinct ks \<Longrightarrow> distinct (setKey g ks)"
  by (auto simp: setKey_def)

lemma collectHostGroups_props:
  "set (collectHostGroups gs ks) = set gs \<union> set ks \<and> (distinct ks \<longrightarrow> distinct (collectHostGroups gs ks))"
  by (induction gs arbitrary: ks) (auto simp: set_setKey distinct_setKey)

lemma collectGroups_props:
  "set (collectGroups hs ks) = (\<Union>h \<in> set hs. set (Groups h)) \<union> set ks \<and>
   (distinct ks \<longrightarrow> distinct (collectGroups hs ks))"
proof (induction hs arbitrary: ks)
  case Nil
  then show ?case by simp
next
  case (Cons h hs)
  show ?case
    using Cons.IH [of "collectHostGroups (Groups h) ks"] collectHostGroups_props [of "Groups h" ks]
    by auto
qed

lemma hasUngrouped_iff: "hasUngrouped hs \<longleftrightarrow> (\<exists>h \<in> set hs. Groups h = [])"
  by (induction hs) auto

lemma lessUngroupedLast_irrefl: "\<not> lessUngroupedLast x x"
  by (simp add: lessUngroupedLast_def)

lemma lessUngroupedLast_trans:
  "lessUngroupedLast a b \<Longrightarrow> lessUngroupedLast b c \<Longrightarrow> lessUngroupedLast a c"
  by (auto simp: lessUngroupedLast_def split: if_splits)

lemma lessUngroupedLast_total: "a \<noteq> b \<Longrightarrow> lessUngroupedLast a b \<or> lessUngroupedLast b a"
  by (auto simp: lessUngroupedLast_def)

lemma lessUngroupedLast_asym: "lessUngroupedLast a b \<Longrightarrow> \<not> lessUngroupedLast b a"
  by (auto simp: lessUngroupedLast_def split: if_splits)

lemma sorted_wrt_in_set:
  "sorted_wrt P xs \<Longrightarrow> sorted_wrt (\<lambda>a b. a \<in> set xs \<and> b \<in> set xs \<and> P a b) xs"
  by (auto simp: sorted_wrt_iff_nth_less)

lemma sorted_ungrouped_last:
  assumes "finite S"
  shows "sorted_wrt lessUngroupedLast (ungrouped_last S)"
proof -
  let ?A = "S - {''Ungrouped''}"
  let ?xs = "sorted_list_of_set ?A"
  have fin: "finite ?A" using assms by simp
  have "sorted_wrt (<) ?xs" by simp
  then have "sorted_wrt (\<lambda>a b. a \<in> set ?xs \<and> b \<in> set ?xs \<and> a < b) ?xs"
    by (rule sorted_wrt_in_set)
  then have a: "sorted_wrt lessUngroupedLast ?xs"
    by (rule sorted_wrt_mono_rel [rotated]) (use fin in \<open>auto simp: lessUngroupedLast_def\<close>)
  have "\<forall>x \<in> set ?xs. lessUngroupedLast x ''Ungrouped''"
    using fin by (auto simp: lessUngroupedLast_def)
  then show ?thesis using a by (simp add: ungrouped_last_def sorted_wrt_append)
qed

lemma set_ungrouped_last: "finite S \<Longrightarrow> set (ungrouped_last S) = S"
  by (auto simp: ungrouped_last_def)

lemma distinct_ungrouped_last: "finite S \<Longrightarrow> distinct (ungrouped_last S)"
  by (auto simp: ungrouped_last_def)

lemma sort_Slice_ungrouped_last:
  assumes "distinct ks"
  shows "sort_Slice lessUngroupedLast ks = ungrouped_last (set ks)"
proof -
  let ?ys = "ungrouped_last (set ks)"
  have "mset ?ys = mset ks"
    using assms by (simp add: set_eq_iff_mset_eq_distinct [symmetric] set_ungrouped_last distinct_ungrouped_last)
  moreover have "sorted_wrt lessUngroupedLast ?ys"
    by (rule sorted_ungrouped_last) simp
  then have "sorted_wrt (\<lambda>a b. \<not> lessUngroupedLast b a) ?ys"
    by (rule sorted_wrt_mono_rel [rotated]) (simp add: lessUngroupedLast_asym)
  moreover note this
  ultimately have "?ys = sort_Slice lessUngroupedLast ks"
    using sort_Slice_unique [of lessUngroupedLast ks ?ys] assms
      lessUngroupedLast_irrefl lessUngroupedLast_trans lessUngroupedLast_total by blast
  then show ?thesis by simp
qed

text \<open>
  Claim C8. \<open>GetAllGroups\<close> returns every group name carried by some host, together
  with \<open>Ungrouped\<close> when some host has no group, each once, in lexical order except that
  \<open>Ungrouped\<close> stands last; the order in which the map of names is iterated has no
  influence on the result.
\<close>

theorem GetAllGroups_ungrouped_last:
  "GetAllGroups hs = ungrouped_last (group_names hs) \<and>
   (\<forall>ks. distinct ks \<and> set ks = group_names hs \<longrightarrow> sort_Slice lessUngroupedLast ks = GetAllGroups hs)"
proof -
  define ks0 where "ks0 = (if hasUngrouped hs then setKey ''Ungrouped'' (collectGroups hs []) else collectGroups hs [])"
  have d0: "distinct ks0"
    using collectGroups_props [of hs "[]"] by (simp add: ks0_def distinct_setKey)
  have s0: "set ks0 = group_names hs"
    using collectGroups_props [of hs "[]"]
    by (auto simp: ks0_def group_names_def set_setKey hasUngrouped_iff)
  have g: "GetAllGroups hs = sort_Slice lessUngroupedLast ks0"
    by (simp add: GetAllGroups_def ks0_def Let_def)
  have 1: "GetAllGroups hs = ungrouped_last (group_names hs)"
    using sort_Slice_ungrouped_last [OF d0] s0 g by simp
  have 2: "sort_Slice lessUngroupedLast ks = GetAllGroups hs"
    if "distinct ks \<and> set ks = group_names hs" for ks
    using sort_Slice_ungrouped_last [of ks] that 1 by simp
  show ?thesis using 1 2 by blast
qed

theorem GetAllGroups_ungrouped_last_witness:
  "GetAllGroups grouped_hosts = ungrouped_last (group_names grouped_hosts) \<and>
   GetAllGroups grouped_hosts = [''Prod'', ''Zeta'', ''web'', ''Ungrouped''] \<and>
   sort_Slice lessUngroupedLast [''Ungrouped'', ''web'', ''Zeta'', ''Prod''] = GetAllGroups grouped_hosts"
proof -
  have v: "GetAllGroups grouped_hosts = [''Prod'', ''Zeta'', ''web'', ''Ungrouped'']"
    by code_simp
  have k: "distinct [''Ungrouped'', ''web'', ''Zeta'', ''Prod''] \<and>
      set [''Ungrouped'', ''web'', ''Zeta'', ''Prod''] = group_names grouped_hosts"
    by (auto simp: group_names_def grouped_hosts_def mkHost_def)
  show ?thesis
    using GetAllGroups_ungrouped_last [of grouped_hosts] v k by blast
qed

section \<open>Group filter and direct selection\<close>

lemma hasGroup_iff: "hasGroup gs grp \<longleftrightarrow> grp \<in> set gs"
  by (induction gs) auto

lemma filterHostsByGroup_filter:
  "filterHostsByGroup hs grp = filter (\<lambda>h. in_group h grp) hs"
  by (induction hs) (auto simp: in_group_def hasGroup_iff)

lemma findByNumber_Some: "findByNumber hs n = Some h \<Longrightarrow> h \<in> set hs \<and> MenuNumber h = n"
  by (induction hs) (auto split: if_splits)

lemma findByNumber_None: "findByNumber hs n = None \<longleftrightarrow> (\<forall>h \<in> set hs. MenuNumber h \<noteq> n)"
  by (induction hs) auto

lemma findByName_Some:
  "findByName hs a = Some h \<Longrightarrow> h \<in> set hs \<and> (ShortName h = a \<or> LongName h = a \<or> IP h = a)"
  by (induction hs) (auto split: if_splits)

lemma findByName_None:
  "findByName hs a = None \<longleftrightarrow> (\<forall>h \<in> set hs. \<not> (ShortName h = a \<or> LongName h = a \<or> IP h = a))"
  by (induction hs) auto

lemma handleDirect_Inr:
  "handleDirectHostSelection a hs = Inr h \<Longrightarrow> h \<in> set hs \<and> identifies a h"
  by (auto simp: handleDirectHostSelection_def identifies_def
      split: option.splits dest: findByNumber_Some findByName_Some)

lemma handleDirect_Inl:
  "\<forall>h \<in> set hs. \<not> identifies a h \<Longrightarrow> \<exists>e. handleDirectHostSelection a hs = Inl e"
  by (cases "handleDirectHostSelection a hs") (auto dest: handleDirect_Inr)

text \<open>
  Claim C7. With \<open>-g\<close> and a positional argument together, the search runs over the
  hosts of the requested group only: a host outside the group is never the one
  connected to, whatever the argument; the run exits with a non-zero status whenever
  the argument names no host inside the group, and in particular when it is the menu
  number of the outside host and menu numbers are distinct (as \<open>AssignMenuNumbers\<close>
  leaves them).
\<close>

theorem group_filter_before_direct_selection:
  assumes "grp \<noteq> []" and "h \<in> set hs" and "\<not> in_group h grp"
  shows "main_select grp (a # rest) hs \<noteq> Connect h
    \<and> ((\<forall>h' \<in> set hs. in_group h' grp \<longrightarrow> \<not> identifies a h') \<longrightarrow>
         (\<exists>e. main_select grp (a # rest) hs = Exit e \<and> exit_status e \<noteq> 0))
    \<and> (distinct (map MenuNumber hs) \<and> Atoi a = Some (MenuNumber h) \<longrightarrow>
         (\<exists>e. main_select grp (a # rest) hs = Exit e \<and> exit_status e \<noteq> 0))"
proof -
  let ?hs' = "filterHostsByGroup hs grp"
  have set': "set ?hs' = {h' \<in> set hs. in_group h' grp}"
    by (simp add: filterHostsByGroup_filter)
  have 1: "main_select grp (a # rest) hs \<noteq> Connect h"
  proof
    assume c: "main_select grp (a # rest) hs = Connect h"
    then have "handleDirectHostSelection a ?hs' = Inr h"
      using assms(1) by (auto simp: main_select_def Let_def split: if_splits sum.splits)
    then have "h \<in> set ?hs'" using handleDirect_Inr by blast
    then show False using set' assms(3) by simp
  qed
  have 2: "\<exists>e. main_select grp (a # rest) hs = Exit e \<and> exit_status e \<noteq> 0"
    if "\<forall>h' \<in> set hs. in_group h' grp \<longrightarrow> \<not> identifies a h'"
  proof -
    have "\<forall>h' \<in> set ?hs'. \<not> identifies a h'" using that set' by simp
    then obtain e where "handleDirectHostSelection a ?hs' = Inl e"
      using handleDirect_Inl by blast
    then show ?thesis using assms(1) by (simp add: main_select_def Let_def exit_status_def)
  qed
  have 3: "\<exists>e. main_select grp (a # rest) hs = Exit e \<and> exit_status e \<noteq> 0"
    if d: "distinct (map MenuNumber hs) \<and> Atoi a = Some (MenuNumber h)"
  proof (rule 2, intro ballI impI)
    fix h' assume h': "h' \<in> set hs" "in_group h' grp"
    show "\<not> identifies a h'"
    proof
      assume "identifies a h'"
      then have "MenuNumber h' = MenuNumber h" using d by (simp add: identifies_def)
      then have "h' = h" using d h'(1) assms(2) by (meson distinct_map inj_onD)
      then show False using h'(2) assms(3) by simp
    qed
  qed
  show ?thesis using 1 2 3 by blast
qed

theorem group_filter_before_direct_selection_witness:
  "''Prod'' \<noteq> [] \<and> mkHost ''c'' 3 [''Zeta'', ''web''] \<in> set grouped_hosts
   \<and> \<not> in_group (mkHost ''c'' 3 [''Zeta'', ''web'']) ''Prod''
   \<and> distinct (map MenuNumber grouped_hosts) \<and> Atoi ''3'' = Some 3
   \<and> main_select ''Prod'' [''3''] grouped_hosts = Exit InvalidSelection
   \<and> main_select ''Prod'' [''c''] grouped_hosts = Exit HostNotFound
   \<and> main_select [] [''c''] grouped_hosts = Connect (mkHost ''c'' 3 [''Zeta'', ''web''])"
proof -
  have p: "''Prod'' \<noteq> []" "mkHost ''c'' 3 [''Zeta'', ''web''] \<in> set grouped_hosts"
    "\<not> in_group (mkHost ''c'' 3 [''Zeta'', ''web'']) ''Prod''"
    by (simp_all add: grouped_hosts_def in_group_def mkHost_def)
  have d: "distinct (map MenuNumber grouped_hosts)" "Atoi ''3'' = Some 3"
    by (simp add: grouped_hosts_def mkHost_def) code_simp
  have v: "main_select ''Prod'' [''3''] grouped_hosts = Exit InvalidSelection"
    "main_select ''Prod'' [''c''] grouped_hosts = Exit HostNotFound"
    "main_select [] [''c''] grouped_hosts = Connect (mkHost ''c'' 3 [''Zeta'', ''web''])"
    by code_simp+
  show ?thesis
    using group_filter_before_direct_selection [OF p, of "''3''" "[]"] p d v by simp
qed

section \<open>The filter and the cursor\<close>

lemma prefix_map_iff:
  "prefix (map g f) (map g s) \<longleftrightarrow>
   (length f \<le> length s \<and> list_all2 (\<lambda>a b. g a = g b) f (take (length f) s))"
proof (induction f arbitrary: s)
  case Nil
  then show ?case by simp
next
  case (Cons a f)
  show ?case
  proof (cases s)
    case Nil
    then show ?thesis by simp
  next
    case (Cons b s')
    then show ?thesis using Cons.IH [of s'] by auto
  qed
qed

lemma ci_prefix_ascii:
  "isASCII f \<Longrightarrow> isASCII s \<Longrightarrow> ci_prefix lc f s \<longleftrightarrow> ascii_ci_prefix f s"
  by (simp add: ci_prefix_def ToLower_def ascii_ci_prefix_def prefix_map_iff)

lemma viewHostsOf_filteredHosts [simp]:
  "viewHostsOf (m\<lparr>filteredHosts := x\<rparr>) = viewHostsOf m"
  by (simp add: viewHostsOf_def getHostsForGroup_def Let_def)

lemma filterLoop_filter:
  "filterLoop lc ft (ToLower lc ft) vh acc = acc @ filter (filter_matches lc ft) vh"
  by (induction vh arbitrary: acc)
     (auto simp: filter_matches_def ci_prefix_def HasPrefix_def)

lemma applyFilter_filter: "ft \<noteq> [] \<Longrightarrow> applyFilter lc ft vh = filter (filter_matches lc ft) vh"
  by (simp add: applyFilter_def filterLoop_filter)

text \<open>
  Claim C5. With an empty filter text the filtered list is the view's host list as it
  is. With a non-empty filter text it holds exactly the hosts of the view for which the
  text is a prefix of the decimal menu number, or a case-insensitive prefix of the short
  name, or a case-insensitive prefix of the long name, in the order of the view.
  \<open>updateFilteredHosts\<close> stores that list in \<open>filteredHosts\<close>. Case-insensitive prefix
  means prefix after \<open>strings.ToLower\<close>, whatever the case table. On ASCII text that is
  the comparison of the characters up to the case of letters; with a well-formed case
  table it is, on any text, the comparison of the lower-cased runes, where a byte
  outside every valid encoding counts as \<open>U+FFFD\<close>.
\<close>

theorem updateFilteredHosts_prefix_filter:
  "applyFilter lc [] vh = vh
   \<and> (ft \<noteq> [] \<longrightarrow> applyFilter lc ft vh = filter (filter_matches lc ft) vh)
   \<and> (viewHostsOf m = Inr vh \<longrightarrow>
        (\<exists>m'. updateFilteredHosts lc m = Inr m'
           \<and> filteredHosts m' = applyFilter lc (filterText m) vh))
   \<and> (isASCII f \<and> isASCII s \<longrightarrow> (ci_prefix lc f s \<longleftrightarrow> ascii_ci_prefix f s))
   \<and> (table_ok lc \<longrightarrow> (ci_prefix lc f s \<longleftrightarrow> rune_ci_prefix lc f s))"
proof -
  have 1: "applyFilter lc [] vh = vh" by (simp add: applyFilter_def)
  have 2: "ft \<noteq> [] \<longrightarrow> applyFilter lc ft vh = filter (filter_matches lc ft) vh"
    by (simp add: applyFilter_filter)
  have 3: "viewHostsOf m = Inr vh \<longrightarrow>
        (\<exists>m'. updateFilteredHosts lc m = Inr m'
           \<and> filteredHosts m' = applyFilter lc (filterText m) vh)"
    by (simp add: updateFilteredHosts_def)
  have 4: "isASCII f \<and> isASCII s \<longrightarrow> (ci_prefix lc f s \<longleftrightarrow> ascii_ci_prefix f s)"
    using ci_prefix_ascii by blast
  have 5: "table_ok lc \<longrightarrow> (ci_prefix lc f s \<longleftrightarrow> rune_ci_prefix lc f s)"
    using ci_prefix_runes by blast
  show ?thesis by (intro conjI 1 2 3 4 5)
qed

theorem updateFilteredHosts_prefix_filter_witness:
  "''1'' \<noteq> [] \<and> map MenuNumber (applyFilter latin1_table ''1'' numbered_hosts) = [1, 10, 11, 100]
   \<and> applyFilter latin1_table ''1'' numbered_hosts = filter (filter_matches latin1_table ''1'') numbered_hosts
   \<and> map ShortName (applyFilter latin1_table ''eP'' numbered_hosts) = [''Epsilon'']
   \<and> (\<exists>m'. updateFilteredHosts latin1_table filtering_model = Inr m'
        \<and> map MenuNumber (filteredHosts m') = [1, 10, 11, 100])
   \<and> isASCII ''eP'' \<and> isASCII ''Epsilon''
   \<and> ci_prefix latin1_table ''eP'' ''Epsilon'' \<and> ascii_ci_prefix ''eP'' ''Epsilon''
   \<and> table_ok latin1_table
   \<and> map MenuNumber (applyFilter latin1_table [CHR 0xC3, CHR 0xA9] accented_hosts) = [1, 2]
   \<and> map MenuNumber (applyFilter latin1_table [CHR 0xC3] accented_hosts) = [3]
   \<and> ci_prefix latin1_table [CHR 0xC3, CHR 0xA9] (CHR 0xC3 # CHR 0x89 # ''cole'')
   \<and> rune_ci_prefix latin1_table [CHR 0xC3, CHR 0xA9] (CHR 0xC3 # CHR 0x89 # ''cole'')
   \<and> runes (CHR 0xC3 # CHR 0x89 # ''cole'') = [0xC9, 0x63, 0x6F, 0x6C, 0x65]"
proof -
  have v: "map MenuNumber (applyFilter latin1_table ''1'' numbered_hosts) = [1, 10, 11, 100]"
    "map ShortName (applyFilter latin1_table ''eP'' numbered_hosts) = [''Epsilon'']"
    by code_simp+
  have w: "viewHostsOf filtering_model = Inr numbered_hosts"
    by (simp add: viewHostsOf_def filtering_model_def)
  have t: "filterText filtering_model = ''1''" by (simp add: filtering_model_def)
  have a: "isASCII ''eP''" "isASCII ''Epsilon''" "ascii_ci_prefix ''eP'' ''Epsilon''"
    by code_simp+
  have k: "table_ok latin1_table"
    by (auto simp: table_ok_def latin1_table_def valid_rune_def)
  have x: "map MenuNumber (applyFilter latin1_table [CHR 0xC3, CHR 0xA9] accented_hosts) = [1, 2]"
    "map MenuNumber (applyFilter latin1_table [CHR 0xC3] accented_hosts) = [3]"
    "rune_ci_prefix latin1_table [CHR 0xC3, CHR 0xA9] (CHR 0xC3 # CHR 0x89 # ''cole'')"
    "runes (CHR 0xC3 # CHR 0x89 # ''cole'') = [0xC9, 0x63, 0x6F, 0x6C, 0x65]"
    by code_simp+
  note T = updateFilteredHosts_prefix_filter
    [of latin1_table numbered_hosts "''1''" filtering_model "''eP''" "''Epsilon''"]
  note U = updateFilteredHosts_prefix_filter
    [of latin1_table numbered_hosts "''1''" filtering_model
        "[CHR 0xC3, CHR 0xA9]" "CHR 0xC3 # CHR 0x89 # ''cole''"]
  have 1: "applyFilter latin1_table ''1'' numbered_hosts
           = filter (filter_matches latin1_table ''1'') numbered_hosts"
    using T by blast
  have 2: "\<exists>m'. updateFilteredHosts latin1_table filtering_model = Inr m'
        \<and> map MenuNumber (filteredHosts m') = [1, 10, 11, 100]"
    using T w t v(1) by auto
  have 3: "ci_prefix latin1_table ''eP'' ''Epsilon''" using T a by blast
  have 4: "ci_prefix latin1_table [CHR 0xC3, CHR 0xA9] (CHR 0xC3 # CHR 0x89 # ''cole'')"
    using U k x(3) by blast
  have 0: "''1'' \<noteq> []" by simp
  show ?thesis by (intro conjI 0 v 1 2 a(1) a(2) 3 a(3) k x(1) x(2) 4 x(3) x(4))
qed

text \<open>
  Claim C9. Filtering is idempotent: filtering the filtered list again with the same
  text gives the same list; recomputing the filtered list of an unchanged model, or of
  a model whose host list is the filtered list itself, changes nothing.
\<close>

theorem filter_idempotent:
  "applyFilter lc ft (applyFilter lc ft vh) = applyFilter lc ft vh
   \<and> (updateFilteredHosts lc m = Inr m' \<longrightarrow>
        updateFilteredHosts lc m' = Inr m'
        \<and> updateFilteredHosts lc (m'\<lparr>hosts := filteredHosts m', viewIndex := 0\<rparr>)
            = Inr (m'\<lparr>hosts := filteredHosts m', viewIndex := 0\<rparr>))"
proof -
  have 1: "applyFilter lc ft (applyFilter lc ft vh) = applyFilter lc ft vh" for ft vh
    by (cases "ft = []") (simp_all add: applyFilter_filter, simp add: applyFilter_def)
  have 2: "updateFilteredHosts lc m' = Inr m'
        \<and> updateFilteredHosts lc (m'\<lparr>hosts := filteredHosts m', viewIndex := 0\<rparr>)
            = Inr (m'\<lparr>hosts := filteredHosts m', viewIndex := 0\<rparr>)"
    if u: "updateFilteredHosts lc m = Inr m'"
  proof -
    obtain vh where vh: "viewHostsOf m = Inr vh"
      and m': "m' = m\<lparr>filteredHosts := applyFilter lc (filterText m) vh\<rparr>"
      using u by (auto simp: updateFilteredHosts_def split: sum.splits)
    have "viewHostsOf m' = Inr vh"
      using vh by (simp add: m')
    then have a: "updateFilteredHosts lc m' = Inr m'"
      by (simp add: updateFilteredHosts_def m')
    have "viewHostsOf (m'\<lparr>hosts := filteredHosts m', viewIndex := 0\<rparr>) = Inr (filteredHosts m')"
      by (simp add: viewHostsOf_def)
    then have b: "updateFilteredHosts lc (m'\<lparr>hosts := filteredHosts m', viewIndex := 0\<rparr>)
            = Inr (m'\<lparr>hosts := filteredHosts m', viewIndex := 0\<rparr>)"
      by (simp add: updateFilteredHosts_def m' 1)
    show ?thesis using a b by simp
  qed
  show ?thesis using 1 2 by blast
qed


theorem filter_idempotent_witness:
  "applyFilter latin1_table ''1'' (applyFilter latin1_table ''1'' numbered_hosts)
     = applyFilter latin1_table ''1'' numbered_hosts
   \<and> (\<exists>m'. updateFilteredHosts latin1_table filtering_model = Inr m'
        \<and> map MenuNumber (filteredHosts m') = [1, 10, 11, 100]
        \<and> updateFilteredHosts latin1_table m' = Inr m')"
proof -
  let ?m' = "filtering_model\<lparr>filteredHosts := applyFilter latin1_table ''1'' numbered_hosts\<rparr>"
  have u: "updateFilteredHosts latin1_table filtering_model = Inr ?m'"
    by (simp add: updateFilteredHosts_def viewHostsOf_def filtering_model_def)
  have v: "map MenuNumber (applyFilter latin1_table ''1'' numbered_hosts) = [1, 10, 11, 100]"
    by code_simp
  show ?thesis
    using filter_idempotent [of latin1_table "''1''" numbered_hosts filtering_model ?m'] u v by auto
qed

lemma updateFilteredHosts_fields:
  "updateFilteredHosts lc m = Inr m' \<Longrightarrow> cursor m' = cursor m \<and> Selected m' = Selected m"
  by (auto simp: updateFilteredHosts_def split: sum.splits)

lemma cursor_ok_zero: "cursor m = 0 \<Longrightarrow> cursor_ok m"
  by (simp add: cursor_ok_def)

lemma cursor_ok_moveCursor: "cursor_ok m \<Longrightarrow> cursor_ok (moveCursor m d)"
  by (auto simp: cursor_ok_def moveCursor_def Let_def)

lemma Selected_moveCursor: "Selected (moveCursor m d) = Selected m"
  by (simp add: moveCursor_def Let_def)

lemma navigateView_ok:
  assumes "navigateView lc m d = Inr m'"
  shows "cursor m' = 0 \<and> Selected m' = Selected m"
proof -
  obtain m0 where "updateFilteredHosts lc m0 = Inr m'" and "cursor m0 = 0" and "Selected m0 = Selected m"
    using assms unfolding navigateView_def Let_def by fastforce
  then show ?thesis using updateFilteredHosts_fields by fastforce
qed

lemma handleBackspace_ok:
  assumes "handleBackspace lc m = Inr m'"
  shows "(cursor m' = 0 \<or> m' = m) \<and> Selected m' = Selected m"
proof (cases "length (filterText m) > 0")
  case True
  then obtain m1 where u: "updateFilteredHosts lc (m\<lparr>filterText := butlast (filterText m)\<rparr>) = Inr m1"
    and m': "m' = m1\<lparr>cursor := 0\<rparr>"
    using assms by (auto simp: handleBackspace_def split: sum.splits)
  have "Selected m1 = Selected m" using updateFilteredHosts_fields [OF u] by simp
  then show ?thesis using m' by simp
next
  case False
  then show ?thesis using assms by (simp add: handleBackspace_def)
qed

lemma handleTypedCharacter_ok:
  assumes "handleTypedCharacter lc m s = Inr m'"
  shows "cursor m' = 0 \<and> Selected m' = Selected m"
proof -
  obtain m1 where u: "updateFilteredHosts lc (m\<lparr>filterText := filterText m @ s\<rparr>) = Inr m1"
    and m': "m' = m1\<lparr>cursor := 0\<rparr>"
    using assms by (auto simp: handleTypedCharacter_def split: sum.splits)
  have "Selected m1 = Selected m" using updateFilteredHosts_fields [OF u] by simp
  then show ?thesis using m' by simp
qed

lemma handleEnterKey_ok:
  assumes "cursor_ok m"
  shows "handleEnterKey m \<noteq> Inl (FilteredHostsIndex i)"
    and "handleEnterKey m = Inr (m', NoCmd) \<Longrightarrow> m' = m"
    and "handleEnterKey m = Inr (m', Quit) \<Longrightarrow>
           cursor_ok m' \<and> (\<exists>h \<in> set (filteredHosts m'). Selected m' = Some h)"
    and "filteredHosts m = [] \<Longrightarrow> handleEnterKey m = Inr (m, NoCmd)"
  using assms
  by (auto simp: handleEnterKey_def cursor_ok_def split: if_splits)

lemma continue_Inr: "continue r = Inr (m', c) \<Longrightarrow> r = Inr m' \<and> c = NoCmd"
  by (auto simp: continue_def split: sum.splits)

lemma continue_Inl: "continue r = Inl p \<Longrightarrow> r = Inl p"
  by (auto simp: continue_def split: sum.splits)

lemma updateFilteredHosts_panic: "updateFilteredHosts lc m \<noteq> Inl (FilteredHostsIndex i)"
  by (auto simp: updateFilteredHosts_def viewHostsOf_def Let_def split: sum.splits if_splits)

lemma navigateView_panic: "navigateView lc m d \<noteq> Inl (FilteredHostsIndex i)"
  unfolding navigateView_def Let_def by (rule updateFilteredHosts_panic)

lemma handleBackspace_panic: "handleBackspace lc m \<noteq> Inl (FilteredHostsIndex i)"
  using updateFilteredHosts_panic [of lc "m\<lparr>filterText := butlast (filterText m)\<rparr>" i]
  by (auto simp: handleBackspace_def split: sum.splits)

lemma handleTypedCharacter_panic: "handleTypedCharacter lc m s \<noteq> Inl (FilteredHostsIndex i)"
  using updateFilteredHosts_panic [of lc "m\<lparr>filterText := filterText m @ s\<rparr>" i]
  by (auto simp: handleTypedCharacter_def split: sum.splits)

lemma handleKeyPress_no_index_panic:
  assumes "cursor_ok m"
  shows "handleKeyPress lc m k \<noteq> Inl (FilteredHostsIndex i)"
proof (cases k)
  case KeyEnter
  then show ?thesis using assms handleEnterKey_ok(1) by simp
next
  case KeyLeft
  then show ?thesis using navigateView_panic continue_Inl by fastforce
next
  case KeyRight
  then show ?thesis using navigateView_panic continue_Inl by fastforce
next
  case KeyTab
  then show ?thesis using navigateView_panic continue_Inl by fastforce
next
  case KeyBackspace
  then show ?thesis using handleBackspace_panic continue_Inl by fastforce
next
  case (KeyRunes s)
  then show ?thesis using handleTypedCharacter_panic continue_Inl by fastforce
qed simp_all

lemma handleKeyPress_running:
  assumes "cursor_ok m" and "handleKeyPress lc m k = Inr (m', NoCmd)"
  shows "cursor_ok m' \<and> Selected m' = Selected m"
proof (cases k)
  case KeyEnter
  then show ?thesis using assms handleEnterKey_ok(2) by auto
next
  case KeyLeft
  then have "navigateView lc m (- 1) = Inr m'" using assms(2) continue_Inr by fastforce
  then show ?thesis using navigateView_ok cursor_ok_zero by blast
next
  case KeyRight
  then have "navigateView lc m 1 = Inr m'" using assms(2) continue_Inr by fastforce
  then show ?thesis using navigateView_ok cursor_ok_zero by blast
next
  case KeyTab
  then have "navigateView lc m 1 = Inr m'" using assms(2) continue_Inr by fastforce
  then show ?thesis using navigateView_ok cursor_ok_zero by blast
next
  case KeyBackspace
  then have "handleBackspace lc m = Inr m'" using assms(2) continue_Inr by fastforce
  then show ?thesis using handleBackspace_ok assms(1) cursor_ok_zero by blast
next
  case (KeyRunes s)
  then have "handleTypedCharacter lc m s = Inr m'" using assms(2) continue_Inr by fastforce
  then show ?thesis using handleTypedCharacter_ok cursor_ok_zero by blast
next
  case KeyUp
  then show ?thesis using assms by (auto simp: cursor_ok_moveCursor Selected_moveCursor)
next
  case KeyDown
  then show ?thesis using assms by (auto simp: cursor_ok_moveCursor Selected_moveCursor)
next
  case KeyEscape
  then show ?thesis using assms by simp
next
  case KeyOther
  then show ?thesis using assms by auto
qed

lemma handleKeyPress_quit:
  assumes "cursor_ok m" and "handleKeyPress lc m k = Inr (m', Quit)"
  shows "Selected m' = Selected m \<or> (\<exists>h \<in> set (filteredHosts m'). Selected m' = Some h)"
proof (cases k)
  case KeyEnter
  then show ?thesis using assms handleEnterKey_ok(3) by auto
qed (use assms in \<open>auto dest!: continue_Inr\<close>)

lemma Update_no_index_panic: "cursor_ok m \<Longrightarrow> Update lc m msg \<noteq> Inl (FilteredHostsIndex i)"
  by (cases msg) (simp_all add: handleKeyPress_no_index_panic)

lemma Update_running:
  "cursor_ok m \<Longrightarrow> Update lc m msg = Inr (m', NoCmd) \<Longrightarrow> cursor_ok m' \<and> Selected m' = Selected m"
proof (cases msg)
  case (WindowSizeMsg w h)
  assume "cursor_ok m" "Update lc m msg = Inr (m', NoCmd)"
  then show ?thesis using WindowSizeMsg by (auto simp: cursor_ok_def)
next
  case (KeyMsg k)
  assume "cursor_ok m" "Update lc m msg = Inr (m', NoCmd)"
  then show ?thesis using KeyMsg handleKeyPress_running by simp
next
  case OtherMsg
  assume "cursor_ok m" "Update lc m msg = Inr (m', NoCmd)"
  then show ?thesis using OtherMsg by auto
qed

lemma Update_quit:
  "cursor_ok m \<Longrightarrow> Update lc m msg = Inr (m', Quit) \<Longrightarrow>
   Selected m' = Selected m \<or> (\<exists>h \<in> set (filteredHosts m'). Selected m' = Some h)"
  by (cases msg) (auto dest: handleKeyPress_quit)

lemma eventLoop_invariant:
  "cursor_ok m \<Longrightarrow>
   eventLoop lc m msgs \<noteq> Panicked (FilteredHostsIndex i)
   \<and> (eventLoop lc m msgs = Running m' \<longrightarrow> cursor_ok m' \<and> Selected m' = Selected m)
   \<and> (eventLoop lc m msgs = Stopped m' \<longrightarrow>
        Selected m' = Selected m \<or> (\<exists>h \<in> set (filteredHosts m'). Selected m' = Some h))"
proof (induction msgs arbitrary: m)
  case Nil
  then show ?case by auto
next
  case (Cons msg msgs)
  show ?case
  proof (cases "Update lc m msg")
    case (Inl p)
    then show ?thesis using Update_no_index_panic [OF Cons.prems] by auto
  next
    case (Inr r)
    obtain m1 c where r: "r = (m1, c)" by (cases r)
    show ?thesis
    proof (cases c)
      case NoCmd
      then have u: "Update lc m msg = Inr (m1, NoCmd)" using Inr r by simp
      then have ok: "cursor_ok m1" and sel: "Selected m1 = Selected m"
        using Update_running [OF Cons.prems] by auto
      have e: "eventLoop lc m (msg # msgs) = eventLoop lc m1 msgs" using u by simp
      show ?thesis using Cons.IH [OF ok] e sel by simp
    next
      case Quit
      then have u: "Update lc m msg = Inr (m1, Quit)" using Inr r by simp
      then have e: "eventLoop lc m (msg # msgs) = Stopped m1" by simp
      show ?thesis using Update_quit [OF Cons.prems u] e by auto
    qed
  qed
qed

text \<open>
  Claim C10. From a model whose filtered list is not empty and whose cursor is 0, no
  sequence of messages makes \<open>handleEnterKey\<close> index \<open>filteredHosts\<close> out of range: in
  every state reached the cursor lies inside a non-empty filtered list, or the list is
  empty, the cursor is 0 or -1 and Enter changes nothing; a host selected on leaving the
  loop is an element of the filtered list.
\<close>

theorem enter_never_out_of_bounds:
  assumes "filteredHosts m \<noteq> []" and "cursor m = 0"
  shows "eventLoop lc m msgs \<noteq> Panicked (FilteredHostsIndex i)
   \<and> (eventLoop lc m msgs = Running m' \<longrightarrow>
        cursor_ok m' \<and> handleEnterKey m' \<noteq> Inl (FilteredHostsIndex i)
        \<and> (filteredHosts m' = [] \<longrightarrow> handleEnterKey m' = Inr (m', NoCmd)))
   \<and> (eventLoop lc m msgs = Stopped m' \<longrightarrow>
        Selected m' = Selected m \<or> (\<exists>h \<in> set (filteredHosts m'). Selected m' = Some h))"
proof -
  have ok: "cursor_ok m" using assms(2) by (rule cursor_ok_zero)
  show ?thesis
    using eventLoop_invariant [OF ok, of lc msgs i m'] handleEnterKey_ok(1,4) by blast
qed


theorem enter_never_out_of_bounds_witness:
  "filteredHosts selector_start \<noteq> [] \<and> cursor selector_start = 0
   \<and> SetupUI latin1_table numbered_hosts False False [] = Inr selector_start
   \<and> (\<exists>m'. eventLoop latin1_table selector_start [KeyMsg (KeyRunes ''z''), KeyMsg KeyDown] = Running m'
         \<and> filteredHosts m' = [] \<and> cursor m' = - 1 \<and> cursor_ok m'
         \<and> handleEnterKey m' = Inr (m', NoCmd))
   \<and> (\<exists>m'. eventLoop latin1_table selector_start
           [KeyMsg (KeyRunes ''z''), KeyMsg KeyDown, KeyMsg KeyEnter, KeyMsg KeyBackspace,
            KeyMsg KeyDown, KeyMsg KeyEnter] = Stopped m'
         \<and> map_option ShortName (Selected m') = Some ''beta'')"
proof -
  have p: "filteredHosts selector_start \<noteq> []" "cursor selector_start = 0"
    by (simp_all add: selector_start_def numbered_hosts_def)
  have s: "SetupUI latin1_table numbered_hosts False False [] = Inr selector_start"
  proof -
    have "GetAllGroups numbered_hosts = [''x'', ''Ungrouped'']" by code_simp
    then show ?thesis
      by (simp add: SetupUI_def updateFilteredHosts_def viewHostsOf_def applyFilter_def
          selector_start_def)
  qed
  have a: "(case eventLoop latin1_table selector_start [KeyMsg (KeyRunes ''z''), KeyMsg KeyDown] of
             Running m' \<Rightarrow> filteredHosts m' = [] \<and> cursor m' = - 1 | _ \<Rightarrow> False)"
    by code_simp
  then obtain m1 where m1: "eventLoop latin1_table selector_start [KeyMsg (KeyRunes ''z''), KeyMsg KeyDown] = Running m1"
    "filteredHosts m1 = []" "cursor m1 = - 1"
    by (auto split: run.splits)
  have b: "(case eventLoop latin1_table selector_start
           [KeyMsg (KeyRunes ''z''), KeyMsg KeyDown, KeyMsg KeyEnter, KeyMsg KeyBackspace,
            KeyMsg KeyDown, KeyMsg KeyEnter] of
             Stopped m' \<Rightarrow> map_option ShortName (Selected m') = Some ''beta'' | _ \<Rightarrow> False)"
    by code_simp
  then obtain m2 where m2: "eventLoop latin1_table selector_start
           [KeyMsg (KeyRunes ''z''), KeyMsg KeyDown, KeyMsg KeyEnter, KeyMsg KeyBackspace,
            KeyMsg KeyDown, KeyMsg KeyEnter] = Stopped m2"
    "map_option ShortName (Selected m2) = Some ''beta''"
    by (auto split: run.splits)
  show ?thesis
    using enter_never_out_of_bounds [OF p, of latin1_table "[KeyMsg (KeyRunes ''z''), KeyMsg KeyDown]" "- 1" m1]
      p s m1 m2 by auto
qed

section \<open>The parser\<close>

lemma re_rest_nonempty: "re_rest b rest = Some v \<Longrightarrow> v \<noteq> []"
  by (auto simp: re_rest_def Let_def split: if_splits)

lemma re_keyword_prefix: "re_keyword kw l = Some v \<Longrightarrow> prefix kw l \<and> v \<noteq> []"
  by (auto simp: re_keyword_def strip_prefix_def re_rest_nonempty split: option.splits if_splits)

lemma re_keyword_digits_prefix: "re_keyword_digits kw l = Some v \<Longrightarrow> prefix kw l"
  by (auto simp: re_keyword_digits_def strip_prefix_def Let_def split: option.splits if_splits)

lemma reMenu_hash: "reMenu l = Some m \<Longrightarrow> prefix ''#'' l"
  by (auto simp: reMenu_def strip_prefix_def split: option.splits if_splits)

lemma reMenu_text: "reMenu l = Some m \<Longrightarrow> snd m \<noteq> []"
  by (auto simp: reMenu_def strip_prefix_def Let_def re_rest_nonempty split: option.splits if_splits)

lemma reMenu_digits: "reMenu l = Some m \<Longrightarrow> \<forall>c \<in> set (fst m). re_digit c"
  by (auto simp: reMenu_def strip_prefix_def Let_def split: option.splits if_splits
      dest: set_takeWhileD)

lemma hash_not_keyword:
  assumes "prefix ''#'' l"
  shows "reHost l = None" "reHostname l = None" "reUser l = None" "rePort l = None"
    "reIdentity l = None"
proof -
  obtain r where l: "l = CHR ''#'' # r" using assms by (auto simp: prefix_def)
  show "reHost l = None" "reHostname l = None" "reUser l = None" "reIdentity l = None"
    by (simp_all add: reHost_def reHostname_def reUser_def reIdentity_def re_keyword_def
        strip_prefix_def l)
  show "rePort l = None"
    by (simp add: rePort_def re_keyword_digits_def strip_prefix_def l)
qed

lemma digits_value_nonneg_aux:
  "0 \<le> a \<Longrightarrow> \<forall>c \<in> set ds. re_digit c \<Longrightarrow> 0 \<le> foldl (\<lambda>a c. 10 * a + (of_char c - 48)) (a::int) ds"
proof (induction ds arbitrary: a)
  case Nil
  then show ?case by simp
next
  case (Cons c ds)
  have "48 \<le> (of_char c :: nat)" using Cons.prems(2) by (simp add: re_digit_def)
  moreover have "(of_char c :: int) = int (of_char c)" by (simp add: of_nat_of_char)
  ultimately have "(48::int) \<le> of_char c" by linarith
  then have "0 \<le> 10 * a + (of_char c - 48)" using Cons.prems(1) by simp
  then show ?case using Cons.IH Cons.prems(2) by simp
qed

lemma digits_value_nonneg: "\<forall>c \<in> set ds. re_digit c \<Longrightarrow> 0 \<le> digits_value ds"
  unfolding digits_value_def by (rule digits_value_nonneg_aux) simp_all

lemma Atoi_digits:
  assumes "ds \<noteq> []" and "\<forall>c \<in> set ds. re_digit c"
  shows "Atoi ds = (if 2 ^ 63 - 1 < digits_value ds then None else Some (digits_value ds))"
proof -
  have "re_digit (hd ds)" using assms by simp
  then have h: "hd ds \<noteq> CHR ''+''" "hd ds \<noteq> CHR ''-''"
    by (auto simp: re_digit_def)
  have n: "\<not> list_ex (\<lambda>c. \<not> re_digit c) ds" using assms(2) by (simp add: list_ex_iff)
  have "0 \<le> digits_value ds" using assms(2) by (rule digits_value_nonneg)
  then have "\<not> digits_value ds < - (2 ^ 63)" by simp
  then show ?thesis using assms(1) h n by (simp add: Atoi_def Let_def)
qed

lemma handleMenuLine_cases:
  assumes "reMenu l = Some m"
  shows "handleMenuLine m c =
     (if menu_number_out_of_range l then Inl (InvalidMenuNumber (fst m))
      else Inr (c\<lparr>MenuNumber := (if fst m = [] then 0 else digits_value (fst m)), DescText := snd m\<rparr>))"
proof (cases "fst m = []")
  case True
  then show ?thesis using assms by (simp add: handleMenuLine_def menu_number_out_of_range_def)
next
  case False
  have "Atoi (fst m) = (if 2 ^ 63 - 1 < digits_value (fst m) then None else Some (digits_value (fst m)))"
    using Atoi_digits [OF False] reMenu_digits [OF assms] by simp
  then show ?thesis using assms False
    by (simp add: handleMenuLine_def menu_number_out_of_range_def)
qed

lemma parseLine_Host:
  "reHost l = Some name \<Longrightarrow>
   parseLine l (cur, hs) =
     Inr (initialHost\<lparr>ShortName := name, LongName := name\<rparr>, hs @ filter retained [cur])"
  by (simp add: parseLine_def handleHostLine_def retained_def)

lemma parseLine_Menu:
  assumes "reMenu l = Some m"
  shows "parseLine l (cur, hs) =
     (case handleMenuLine m cur of Inl e \<Rightarrow> Inl e | Inr c \<Rightarrow> Inr (c, hs))"
  using assms hash_not_keyword [OF reMenu_hash [OF assms]]
  by (simp add: parseLine_def)

lemma parseLine_other:
  assumes "reHost l = None" and "reMenu l = None"
  shows "\<exists>c. parseLine l (cur, hs) = Inr (c, hs) \<and> ShortName c = ShortName cur
           \<and> DescText c = DescText cur \<and> parseLine l (cur, []) = Inr (c, [])"
  using assms
  by (auto simp: parseLine_def handleGroupLine_def Let_def split: option.splits)


lemma parseLine_nonHost:
  assumes "reHost l = None"
  shows "parseLine l (cur, hs) =
     (if menu_number_out_of_range l then Inl (InvalidMenuNumber (fst (the (reMenu l))))
      else Inr (line_effect l cur, hs))"
    and "\<not> menu_number_out_of_range l \<Longrightarrow> ShortName (line_effect l cur) = ShortName cur"
    and "\<not> menu_number_out_of_range l \<Longrightarrow>
         DescText (line_effect l cur) \<noteq> [] \<longleftrightarrow> DescText cur \<noteq> [] \<or> reMenu l \<noteq> None"
proof -
  show "parseLine l (cur, hs) =
     (if menu_number_out_of_range l then Inl (InvalidMenuNumber (fst (the (reMenu l))))
      else Inr (line_effect l cur, hs))"
  proof (cases "reMenu l")
    case None
    then have "\<not> menu_number_out_of_range l" by (simp add: menu_number_out_of_range_def)
    then show ?thesis using parseLine_other [OF assms None, of cur hs]
      by (auto simp: line_effect_def)
  next
    case (Some m)
    show ?thesis
      using parseLine_Menu [OF Some, of cur hs] parseLine_Menu [OF Some, of cur "[]"]
        handleMenuLine_cases [OF Some, of cur] Some
      by (simp add: line_effect_def)
  qed
  show "ShortName (line_effect l cur) = ShortName cur" if "\<not> menu_number_out_of_range l"
  proof (cases "reMenu l")
    case None
    then show ?thesis using parseLine_other [OF assms None, of cur "[]"]
      by (auto simp: line_effect_def)
  next
    case (Some m)
    show ?thesis
      using parseLine_Menu [OF Some, of cur "[]"] handleMenuLine_cases [OF Some, of cur] that
      by (simp add: line_effect_def)
  qed
  show "DescText (line_effect l cur) \<noteq> [] \<longleftrightarrow> DescText cur \<noteq> [] \<or> reMenu l \<noteq> None"
    if "\<not> menu_number_out_of_range l"
  proof (cases "reMenu l")
    case None
    then show ?thesis using parseLine_other [OF assms None, of cur "[]"]
      by (auto simp: line_effect_def)
  next
    case (Some m)
    show ?thesis
      using parseLine_Menu [OF Some, of cur "[]"] handleMenuLine_cases [OF Some, of cur] that
        reMenu_text [OF Some] Some
      by (simp add: line_effect_def)
  qed
qed

lemma content_lines_Cons:
  "content_lines (t # rest) =
     (if TrimSpace t = [] then content_lines rest else TrimSpace t # content_lines rest)"
  by (simp add: content_lines_def)

lemma out_of_range_not_Host: "menu_number_out_of_range l \<Longrightarrow> reHost l = None"
  using hash_not_keyword(1) reMenu_hash
  by (auto simp: menu_number_out_of_range_def split: option.splits)

text \<open>Parsing aborts exactly when some line carries an out-of-range menu number.\<close>

lemma scanLines_error_iff:
  "(\<exists>e. scanLines lines st = Inl e) \<longleftrightarrow>
   (\<exists>l \<in> set (content_lines lines). menu_number_out_of_range l)"
proof (induction lines arbitrary: st)
  case Nil
  then show ?case by (simp add: content_lines_def)
next
  case (Cons t rest)
  obtain cur hs where st: "st = (cur, hs)" by (cases st)
  show ?case
  proof (cases "TrimSpace t = []")
    case True
    then show ?thesis using Cons.IH [of st] by (simp add: content_lines_Cons)
  next
    case False
    show ?thesis
    proof (cases "reHost (TrimSpace t)")
      case (Some name)
      then have "\<not> menu_number_out_of_range (TrimSpace t)" using out_of_range_not_Host by force
      then show ?thesis
        using False Some Cons.IH parseLine_Host [OF Some, of cur hs]
        by (simp add: content_lines_Cons st)
    next
      case None
      show ?thesis
        using False Cons.IH parseLine_nonHost(1) [OF None, of cur hs]
        by (cases "menu_number_out_of_range (TrimSpace t)") (simp_all add: content_lines_Cons st)
    qed
  qed
qed

lemma scanLines_error_form:
  "scanLines lines st = Inl e \<Longrightarrow>
   \<exists>l \<in> set (content_lines lines). menu_number_out_of_range l
      \<and> e = InvalidMenuNumber (fst (the (reMenu l)))"
proof (induction lines arbitrary: st)
  case Nil
  then show ?case by simp
next
  case (Cons t rest)
  obtain cur hs where st: "st = (cur, hs)" by (cases st)
  show ?case
  proof (cases "TrimSpace t = []")
    case True
    then show ?thesis using Cons by (simp add: content_lines_Cons)
  next
    case False
    show ?thesis
    proof (cases "reHost (TrimSpace t)")
      case (Some name)
      then show ?thesis
        using False Cons parseLine_Host [OF Some, of cur hs]
        by (simp add: content_lines_Cons st)
    next
      case None
      show ?thesis
        using False Cons parseLine_nonHost(1) [OF None, of cur hs]
        by (auto simp: content_lines_Cons st split: if_splits)
    qed
  qed
qed

lemma block_entry_Pair:
  "block_entry (name, body) = fold line_effect body (initialHost\<lparr>ShortName := name, LongName := name\<rparr>)"
  by (simp add: block_entry_def)

text \<open>The loop files each finished block and carries the open one.\<close>

lemma scanLines_blocks:
  "scanLines lines (cur, hs) = Inr (cur', hs') \<Longrightarrow>
   hs' @ filter retained [cur'] =
     hs @ filter retained [fold line_effect (takeWhile (\<lambda>l. reHost l = None) (content_lines lines)) cur]
        @ filter retained (map block_entry (host_blocks (content_lines lines)))"
proof (induction lines arbitrary: cur hs)
  case Nil
  then show ?case by (simp add: content_lines_def)
next
  case (Cons t rest)
  show ?case
  proof (cases "TrimSpace t = []")
    case True
    then show ?thesis using Cons by (simp add: content_lines_Cons)
  next
    case False
    show ?thesis
    proof (cases "reHost (TrimSpace t)")
      case (Some name)
      let ?new = "initialHost\<lparr>ShortName := name, LongName := name\<rparr>"
      have "scanLines rest (?new, hs @ filter retained [cur]) = Inr (cur', hs')"
        using Cons.prems False parseLine_Host [OF Some, of cur hs] by simp
      then have "hs' @ filter retained [cur'] =
          (hs @ filter retained [cur])
          @ filter retained [fold line_effect (takeWhile (\<lambda>l. reHost l = None) (content_lines rest)) ?new]
          @ filter retained (map block_entry (host_blocks (content_lines rest)))"
        by (rule Cons.IH)
      then show ?thesis using False Some
        by (simp add: content_lines_Cons block_entry_Pair)
    next
      case None
      have nb: "\<not> menu_number_out_of_range (TrimSpace t)"
        using Cons.prems False parseLine_nonHost(1) [OF None, of cur hs]
        by (auto split: if_splits)
      then have "scanLines rest (line_effect (TrimSpace t) cur, hs) = Inr (cur', hs')"
        using Cons.prems False parseLine_nonHost(1) [OF None, of cur hs] by simp
      then have "hs' @ filter retained [cur'] =
          hs @ filter retained [fold line_effect (takeWhile (\<lambda>l. reHost l = None) (content_lines rest))
                 (line_effect (TrimSpace t) cur)]
          @ filter retained (map block_entry (host_blocks (content_lines rest)))"
        by (rule Cons.IH)
      then show ?thesis using False None
        by (simp add: content_lines_Cons)
    qed
  qed
qed

lemma fold_line_effect:
  "\<forall>l \<in> set body. reHost l = None \<and> \<not> menu_number_out_of_range l \<Longrightarrow>
   ShortName (fold line_effect body c) = ShortName c \<and>
   (DescText (fold line_effect body c) \<noteq> [] \<longleftrightarrow>
      DescText c \<noteq> [] \<or> list_ex (\<lambda>l. reMenu l \<noteq> None) body)"
proof (induction body arbitrary: c)
  case Nil
  then show ?case by simp
next
  case (Cons l body)
  have l: "reHost l = None" "\<not> menu_number_out_of_range l" using Cons.prems by simp_all
  have ih: "ShortName (fold line_effect body (line_effect l c)) = ShortName (line_effect l c) \<and>
   (DescText (fold line_effect body (line_effect l c)) \<noteq> [] \<longleftrightarrow>
      DescText (line_effect l c) \<noteq> [] \<or> list_ex (\<lambda>l. reMenu l \<noteq> None) body)"
    using Cons.IH [of "line_effect l c"] Cons.prems by simp
  show ?case
    using ih parseLine_nonHost(2) [OF l(1) l(2), of c] parseLine_nonHost(3) [OF l(1) l(2), of c]
    by auto
qed

lemma host_blocks_props:
  "b \<in> set (host_blocks ls) \<Longrightarrow>
   fst b \<noteq> [] \<and> (\<forall>l \<in> set (snd b). reHost l = None \<and> l \<in> set ls)"
proof (induction ls)
  case Nil
  then show ?case by simp
next
  case (Cons l ls)
  show ?case
  proof (cases "reHost l")
    case None
    then show ?thesis using Cons by auto
  next
    case (Some name)
    have "name \<noteq> []" using Some re_keyword_prefix by (auto simp: reHost_def)
    then show ?thesis using Cons Some by (auto dest: set_takeWhileD)
  qed
qed

lemma block_entry_props:
  assumes "b \<in> set (host_blocks ls)" and "\<forall>l \<in> set ls. \<not> menu_number_out_of_range l"
  shows "ShortName (block_entry b) = fst b" and "retained (block_entry b) \<longleftrightarrow> has_menu b"
proof -
  have p: "fst b \<noteq> []" "\<forall>l \<in> set (snd b). reHost l = None \<and> \<not> menu_number_out_of_range l"
    using host_blocks_props [OF assms(1)] assms(2) by auto
  let ?c = "initialHost\<lparr>ShortName := fst b, LongName := fst b\<rparr>"
  have f: "ShortName (fold line_effect (snd b) ?c) = ShortName ?c \<and>
   (DescText (fold line_effect (snd b) ?c) \<noteq> [] \<longleftrightarrow>
      DescText ?c \<noteq> [] \<or> list_ex (\<lambda>l. reMenu l \<noteq> None) (snd b))"
    using fold_line_effect [OF p(2)] by blast
  show "ShortName (block_entry b) = fst b" using f by (simp add: block_entry_def)
  show "retained (block_entry b) \<longleftrightarrow> has_menu b"
    using f p(1) by (simp add: block_entry_def retained_def has_menu_def initialHost_def)
qed


lemma readConfigFile_scanLines:
  "readConfigFile (Some lines) =
     (case scanLines lines (initialHost, []) of
        Inl e \<Rightarrow> Inl e
      | Inr st \<Rightarrow> Inr (snd st @ filter retained [fst st]))"
  by (simp add: readConfigFile_def retained_def split: sum.splits prod.splits)

lemma readConfigFile_error_iff:
  "(\<exists>e. readConfigFile (Some lines) = Inl e) \<longleftrightarrow>
   (\<exists>l \<in> set (content_lines lines). menu_number_out_of_range l)"
proof -
  have "(\<exists>e. readConfigFile (Some lines) = Inl e) \<longleftrightarrow> (\<exists>e. scanLines lines (initialHost, []) = Inl e)"
    unfolding readConfigFile_scanLines by (cases "scanLines lines (initialHost, [])") simp_all
  then show ?thesis using scanLines_error_iff [of lines "(initialHost, [])"] by simp
qed

text \<open>
  Claim C2 says that a line \<open># Menu <non-numeric>: <text>\<close> makes parsing fail. It does
  not: the pattern for \<open>Menu\<close> lines admits digits only in the number position, so such
  a line matches no pattern and is passed over like any unrecognised line. Here the file
  parses without error, and its only block, left without a description, is dropped.
\<close>

theorem menu_non_numeric_ignored_counterexample:
  "readConfigFile (Some [''Host a'', ''# Menu abc: text'']) = Inr []
   \<and> ReadConfigFiles (Some [''Host a'', ''# Menu abc: text'']) NotExist = Inr []"
  by code_simp

lemma out_of_range_match:
  assumes "menu_number_out_of_range l"
  obtains m where "reMenu l = Some m" and "fst m \<noteq> []" and "2 ^ 63 - 1 < digits_value (fst m)"
proof (cases "reMenu l")
  case None
  then show ?thesis using assms by (simp add: menu_number_out_of_range_def)
next
  case (Some m)
  then have "fst m \<noteq> [] \<and> 2 ^ 63 - 1 < digits_value (fst m)"
    using assms by (simp add: menu_number_out_of_range_def)
  then show ?thesis using that Some by blast
qed

lemma out_of_range_aborts:
  assumes "\<exists>l \<in> set (content_lines lines). menu_number_out_of_range l"
  shows "\<exists>ds. readConfigFile (Some lines) = Inl (InvalidMenuNumber ds)
         \<and> ReadConfigFiles (Some lines) dir = Inl (InvalidMenuNumber ds)
         \<and> ds \<noteq> [] \<and> (\<forall>c \<in> set ds. re_digit c) \<and> Atoi ds = None"
proof -
  obtain e where e: "scanLines lines (initialHost, []) = Inl e"
    using assms scanLines_error_iff by blast
  then obtain l where l: "menu_number_out_of_range l" "e = InvalidMenuNumber (fst (the (reMenu l)))"
    using scanLines_error_form by blast
  obtain m where m: "reMenu l = Some m" "fst m \<noteq> []" "2 ^ 63 - 1 < digits_value (fst m)"
    using l(1) by (rule out_of_range_match)
  have d: "\<forall>c \<in> set (fst m). re_digit c" using reMenu_digits [OF m(1)] .
  have "Atoi (fst m) = (if 2 ^ 63 - 1 < digits_value (fst m) then None else Some (digits_value (fst m)))"
    using m(2) d by (rule Atoi_digits)
  then have a: "Atoi (fst m) = None" using m(3) by (simp only: if_True)
  have r: "readConfigFile (Some lines) = Inl (InvalidMenuNumber (fst m))"
    using e l(2) m(1) by (simp add: readConfigFile_scanLines)
  then have rr: "ReadConfigFiles (Some lines) dir = Inl (InvalidMenuNumber (fst m))"
    by (simp add: ReadConfigFiles_def)
  show ?thesis
    by (rule exI [of _ "fst m"]) (intro conjI r rr m(2) d a)
qed

lemma in_range_parses:
  assumes "\<forall>l \<in> set (content_lines lines). \<not> menu_number_out_of_range l"
  shows "\<exists>hs. readConfigFile (Some lines) = Inr hs"
proof (cases "readConfigFile (Some lines)")
  case (Inl e)
  then have "\<exists>l \<in> set (content_lines lines). menu_number_out_of_range l"
    using readConfigFile_error_iff [of lines] by blast
  then show ?thesis using assms by blast
next
  case (Inr hs)
  then show ?thesis by blast
qed

text \<open>
  Claim C2, amended. Parsing a file fails, with the error \<open>invalid menu number\<close> that
  \<open>ReadConfigFiles\<close> hands to its caller for the primary file, exactly when some line is
  a \<open>Menu\<close> comment whose explicit number is a digit string above the largest \<open>int\<close>;
  the text handed to \<open>strconv.Atoi\<close> always consists of digits. Nothing else aborts
  parsing: in particular a malformed or out-of-range \<open>ConnectTimeout\<close>,
  \<open>ServerAliveInterval\<close> or \<open>ServerAliveCountMax\<close> value is passed over.
\<close>

theorem menu_number_out_of_range_aborts:
  "((\<exists>l \<in> set (content_lines lines). menu_number_out_of_range l) \<longrightarrow>
      (\<exists>ds. readConfigFile (Some lines) = Inl (InvalidMenuNumber ds)
         \<and> ReadConfigFiles (Some lines) dir = Inl (InvalidMenuNumber ds)
         \<and> ds \<noteq> [] \<and> (\<forall>c \<in> set ds. re_digit c) \<and> Atoi ds = None))
   \<and> ((\<forall>l \<in> set (content_lines lines). \<not> menu_number_out_of_range l) \<longrightarrow>
      (\<exists>hs. readConfigFile (Some lines) = Inr hs))
   \<and> (\<forall>m. reMenu line = Some m \<longrightarrow> (\<forall>c \<in> set (fst m). re_digit c))"
proof (intro conjI impI allI)
  assume "\<exists>l \<in> set (content_lines lines). menu_number_out_of_range l"
  then show "\<exists>ds. readConfigFile (Some lines) = Inl (InvalidMenuNumber ds)
         \<and> ReadConfigFiles (Some lines) dir = Inl (InvalidMenuNumber ds)
         \<and> ds \<noteq> [] \<and> (\<forall>c \<in> set ds. re_digit c) \<and> Atoi ds = None"
    by (rule out_of_range_aborts)
next
  assume "\<forall>l \<in> set (content_lines lines). \<not> menu_number_out_of_range l"
  then show "\<exists>hs. readConfigFile (Some lines) = Inr hs" by (rule in_range_parses)
next
  fix m assume "reMenu line = Some m"
  then show "\<forall>c \<in> set (fst m). re_digit c" by (rule reMenu_digits)
qed

theorem menu_number_out_of_range_aborts_witness:
  "list_ex menu_number_out_of_range (content_lines overflow_config)
   \<and> readConfigFile (Some overflow_config) = Inl (InvalidMenuNumber ''99999999999999999999'')
   \<and> (\<exists>ds. ReadConfigFiles (Some overflow_config) NotExist = Inl (InvalidMenuNumber ds) \<and> Atoi ds = None)
   \<and> list_all (\<lambda>l. \<not> menu_number_out_of_range l) (content_lines sample_config)
   \<and> (\<exists>hs. readConfigFile (Some sample_config) = Inr hs)
   \<and> reMenu ''# Menu 12: text'' = Some (''12'', ''text'')
   \<and> list_all re_digit ''12''"
proof -
  have a: "list_ex menu_number_out_of_range (content_lines overflow_config)" by code_simp
  have b: "list_all (\<lambda>l. \<not> menu_number_out_of_range l) (content_lines sample_config)" by code_simp
  have c: "readConfigFile (Some overflow_config) = Inl (InvalidMenuNumber ''99999999999999999999'')"
    by code_simp
  have d: "reMenu ''# Menu 12: text'' = Some (''12'', ''text'')" by code_simp
  have a': "\<exists>l \<in> set (content_lines overflow_config). menu_number_out_of_range l"
    using a by (simp add: list_ex_iff)
  have b': "\<forall>l \<in> set (content_lines sample_config). \<not> menu_number_out_of_range l"
    using b by (simp add: list_all_iff)
  note T = menu_number_out_of_range_aborts [of sample_config NotExist "''# Menu 12: text''"]
  note U = menu_number_out_of_range_aborts [of overflow_config NotExist "[]"]
  have g: "\<exists>ds. ReadConfigFiles (Some overflow_config) NotExist = Inl (InvalidMenuNumber ds) \<and> Atoi ds = None"
    using U a' by blast
  have e: "\<exists>hs. readConfigFile (Some sample_config) = Inr hs" using T b' by blast
  have "\<forall>m. reMenu ''# Menu 12: text'' = Some m \<longrightarrow> (\<forall>c \<in> set (fst m). re_digit c)"
    using T by blast
  then have "\<forall>c \<in> set (fst (''12'', ''text'')). re_digit c" using d by blast
  then have f: "list_all re_digit ''12''" by (simp only: fst_conv list_all_iff)
  show ?thesis by (intro conjI a c g b e d f)
qed

text \<open>
  Claim C3 speaks of every input file. A file with two \<open>Host\<close> blocks, each carrying a
  \<open>Menu\<close> comment, of which one has an out-of-range number, yields the parse error and
  no entry at all.
\<close>

theorem readConfigFile_aborts_counterexample:
  "readConfigFile (Some overflow_config) = Inl (InvalidMenuNumber ''99999999999999999999'')
   \<and> map fst (host_blocks (content_lines overflow_config)) = [''a'', ''b'']
   \<and> list_all has_menu (host_blocks (content_lines overflow_config))"
  by code_simp

text \<open>
  Claim C3, amended. Whenever the parser returns a host list (that is, unless it aborts
  on an out-of-range menu number), the list holds, in file order, the entries of exactly
  those \<open>Host\<close> blocks whose short name and description are not empty at the end of the
  block; these are the blocks that carry a \<open>Menu\<close> comment, so N blocks with a \<open>Menu\<close>
  comment each give N entries and a block without one never appears.
\<close>

theorem readConfigFile_blocks:
  assumes "readConfigFile (Some lines) = Inr hs"
  shows "hs = filter retained (map block_entry (host_blocks (content_lines lines)))
    \<and> (\<forall>b \<in> set (host_blocks (content_lines lines)). retained (block_entry b) \<longleftrightarrow> has_menu b)
    \<and> map ShortName hs = map fst (filter has_menu (host_blocks (content_lines lines)))
    \<and> ((\<forall>b \<in> set (host_blocks (content_lines lines)). has_menu b) \<longrightarrow>
         length hs = length (host_blocks (content_lines lines)))"
proof -
  let ?ls = "content_lines lines"
  let ?bs = "host_blocks ?ls"
  obtain cur' hs' where sc: "scanLines lines (initialHost, []) = Inr (cur', hs')"
    and hs: "hs = hs' @ filter retained [cur']"
    using assms unfolding readConfigFile_scanLines
    by (cases "scanLines lines (initialHost, [])") auto
  have ok: "\<forall>l \<in> set ?ls. \<not> menu_number_out_of_range l"
    using scanLines_error_iff [of lines "(initialHost, [])"] sc by auto
  let ?pre = "takeWhile (\<lambda>l. reHost l = None) ?ls"
  have "\<forall>l \<in> set ?pre. reHost l = None \<and> \<not> menu_number_out_of_range l"
    using ok by (auto dest: set_takeWhileD)
  then have "ShortName (fold line_effect ?pre initialHost) = ShortName initialHost"
    using fold_line_effect by blast
  then have pre: "\<not> retained (fold line_effect ?pre initialHost)"
    by (simp add: retained_def initialHost_def)
  have 1: "hs = filter retained (map block_entry ?bs)"
    using scanLines_blocks [OF sc] pre hs by simp
  have 2: "\<forall>b \<in> set ?bs. retained (block_entry b) \<longleftrightarrow> has_menu b"
    using block_entry_props(2) ok by blast
  have fm: "filter retained (map block_entry ?bs) = map block_entry (filter (retained \<circ> block_entry) ?bs)"
    by (simp add: filter_map)
  have fc: "filter (retained \<circ> block_entry) ?bs = filter has_menu ?bs"
    using 2 by (intro filter_cong) auto
  have hs_eq: "hs = map block_entry (filter has_menu ?bs)" using 1 fm fc by simp
  have "\<forall>b \<in> set (filter has_menu ?bs). ShortName (block_entry b) = fst b"
    using block_entry_props(1) ok by auto
  then have 3: "map ShortName hs = map fst (filter has_menu ?bs)"
    unfolding hs_eq by (simp add: comp_def)
  have 4: "length hs = length ?bs" if "\<forall>b \<in> set ?bs. has_menu b"
    using that hs_eq by simp
  show ?thesis using 1 2 3 4 by blast
qed

theorem readConfigFile_blocks_witness:
  "(\<exists>hs. readConfigFile (Some sample_config) = Inr hs
      \<and> map ShortName hs = [''web1'', ''db'']
      \<and> hs = filter retained (map block_entry (host_blocks (content_lines sample_config))))
   \<and> map (\<lambda>b. (fst b, has_menu b)) (host_blocks (content_lines sample_config))
       = [(''web1'', True), (''template*'', False), (''db'', True)]"
proof -
  have b: "\<forall>l \<in> set (content_lines sample_config). \<not> menu_number_out_of_range l"
  proof -
    have "list_all (\<lambda>l. \<not> menu_number_out_of_range l) (content_lines sample_config)" by code_simp
    then show ?thesis by (simp add: list_all_iff)
  qed
  then have "\<not> (\<exists>e. readConfigFile (Some sample_config) = Inl e)"
    using readConfigFile_error_iff [of sample_config] by blast
  then obtain hs where hs: "readConfigFile (Some sample_config) = Inr hs"
    by (cases "readConfigFile (Some sample_config)") blast+
  have v: "map (\<lambda>b. (fst b, has_menu b)) (host_blocks (content_lines sample_config))
       = [(''web1'', True), (''template*'', False), (''db'', True)]"
    by code_simp
  have w: "map fst (filter has_menu (host_blocks (content_lines sample_config))) = [''web1'', ''db'']"
    by code_simp
  have e: "hs = filter retained (map block_entry (host_blocks (content_lines sample_config)))"
    and n: "map ShortName hs = map fst (filter has_menu (host_blocks (content_lines sample_config)))"
    using readConfigFile_blocks [OF hs] by blast+
  have "map ShortName hs = [''web1'', ''db'']" using n w by (rule trans)
  then have "\<exists>hs. readConfigFile (Some sample_config) = Inr hs
      \<and> map ShortName hs = [''web1'', ''db'']
      \<and> hs = filter retained (map block_entry (host_blocks (content_lines sample_config)))"
    using hs e by (intro exI [of _ hs] conjI)
  then show ?thesis using v by (rule conjI)
qed

section \<open>Colour priority\<close>

lemma applyEnvVarColors_slots:
  shows "Background (applyEnvVarColors getenv c) =
       (if getenv ''SSH_MENU_COLOR_BACKGROUND'' \<noteq> [] then getenv ''SSH_MENU_COLOR_BACKGROUND'' else Background c)"
    and "Foreground (applyEnvVarColors getenv c) =
       (if getenv ''SSH_MENU_COLOR_FOREGROUND'' \<noteq> [] then getenv ''SSH_MENU_COLOR_FOREGROUND'' else Foreground c)"
    and "Border (applyEnvVarColors getenv c) =
       (if getenv ''SSH_MENU_COLOR_BORDER'' \<noteq> [] then getenv ''SSH_MENU_COLOR_BORDER'' else Border c)"
    and "ColorConfig.Selected (applyEnvVarColors getenv c) =
       (if getenv ''SSH_MENU_COLOR_SELECTED'' \<noteq> [] then getenv ''SSH_MENU_COLOR_SELECTED'' else ColorConfig.Selected c)"
    and "Accent (applyEnvVarColors getenv c) =
       (if getenv ''SSH_MENU_COLOR_ACCENT'' \<noteq> [] then getenv ''SSH_MENU_COLOR_ACCENT'' else Accent c)"
    and "Dimmed (applyEnvVarColors getenv c) =
       (if getenv ''SSH_MENU_COLOR_DIMMED'' \<noteq> [] then getenv ''SSH_MENU_COLOR_DIMMED'' else Dimmed c)"
  by (simp_all add: applyEnvVarColors_def Let_def if_distrib [of Background] if_distrib [of Foreground] if_distrib [of Border] if_distrib [of ColorConfig.Selected] if_distrib [of Accent] if_distrib [of Dimmed]
      split del: if_split cong del: if_weak_cong)

lemma mergeConfigColors_slots:
  shows "Background (mergeConfigColors c f) =
       (if Background c = Background DefaultColors \<and> Background f \<noteq> [] then Background f else Background c)"
    and "Foreground (mergeConfigColors c f) =
       (if Foreground c = Foreground DefaultColors \<and> Foreground f \<noteq> [] then Foreground f else Foreground c)"
    and "Border (mergeConfigColors c f) =
       (if Border c = Border DefaultColors \<and> Border f \<noteq> [] then Border f else Border c)"
    and "ColorConfig.Selected (mergeConfigColors c f) =
       (if ColorConfig.Selected c = ColorConfig.Selected DefaultColors \<and> ColorConfig.Selected f \<noteq> [] then ColorConfig.Selected f else ColorConfig.Selected c)"
    and "Accent (mergeConfigColors c f) =
       (if Accent c = Accent DefaultColors \<and> Accent f \<noteq> [] then Accent f else Accent c)"
    and "Dimmed (mergeConfigColors c f) =
       (if Dimmed c = Dimmed DefaultColors \<and> Dimmed f \<noteq> [] then Dimmed f else Dimmed c)"
  by (simp_all add: mergeConfigColors_def Let_def if_distrib [of Background] if_distrib [of Foreground] if_distrib [of Border] if_distrib [of ColorConfig.Selected] if_distrib [of Accent] if_distrib [of Dimmed]
      split del: if_split cong del: if_weak_cong)

text \<open>
  What \<open>ApplyColorConfig\<close> computes for each slot: the environment value wins when it is
  set and differs from the built-in default; otherwise a colour comment of the file
  wins; otherwise the default stays.
\<close>

lemma ApplyColorConfig_slots:
  shows "Background (ApplyColorConfig getenv path readFile) =
       (let e = getenv ''SSH_MENU_COLOR_BACKGROUND''; f = Background (readColorsFromConfig (readFile path))
        in if e \<noteq> [] \<and> e \<noteq> Background DefaultColors then e
           else if path \<noteq> [] \<and> f \<noteq> [] then f
           else Background DefaultColors)"
    and "Foreground (ApplyColorConfig getenv path readFile) =
       (let e = getenv ''SSH_MENU_COLOR_FOREGROUND''; f = Foreground (readColorsFromConfig (readFile path))
        in if e \<noteq> [] \<and> e \<noteq> Foreground DefaultColors then e
           else if path \<noteq> [] \<and> f \<noteq> [] then f
           else Foreground DefaultColors)"
    and "Border (ApplyColorConfig getenv path readFile) =
       (let e = getenv ''SSH_MENU_COLOR_BORDER''; f = Border (readColorsFromConfig (readFile path))
        in if e \<noteq> [] \<and> e \<noteq> Border DefaultColors then e
           else if path \<noteq> [] \<and> f \<noteq> [] then f
           else Border DefaultColors)"
    and "ColorConfig.Selected (ApplyColorConfig getenv path readFile) =
       (let e = getenv ''SSH_MENU_COLOR_SELECTED''; f = ColorConfig.Selected (readColorsFromConfig (readFile path))
        in if e \<noteq> [] \<and> e \<noteq> ColorConfig.Selected DefaultColors then e
           else if path \<noteq> [] \<and> f \<noteq> [] then f
           else ColorConfig.Selected DefaultColors)"
    and "Accent (ApplyColorConfig getenv path readFile) =
       (let e = getenv ''SSH_MENU_COLOR_ACCENT''; f = Accent (readColorsFromConfig (readFile path))
        in if e \<noteq> [] \<and> e \<noteq> Accent DefaultColors then e
           else if path \<noteq> [] \<and> f \<noteq> [] then f
           else Accent DefaultColors)"
    and "Dimmed (ApplyColorConfig getenv path readFile) =
       (let e = getenv ''SSH_MENU_COLOR_DIMMED''; f = Dimmed (readColorsFromConfig (readFile path))
        in if e \<noteq> [] \<and> e \<noteq> Dimmed DefaultColors then e
           else if path \<noteq> [] \<and> f \<noteq> [] then f
           else Dimmed DefaultColors)"
  by (simp_all add: ApplyColorConfig_def applyEnvVarColors_slots mergeConfigColors_slots Let_def)

text \<open>
  Claim C6. An environment variable set to the built-in default of its slot does not
  win over a colour comment of the configuration file: with
  \<open>SSH_MENU_COLOR_BACKGROUND\<close> set to the default background and a file that sets the
  background to black, \<open>ApplyColorConfig\<close> yields black, while \<open>getColorSettings\<close>,
  which tests the variable itself, yields the value of the environment.
\<close>

theorem ApplyColorConfig_env_equal_to_default_loses:
  "background_env ''SSH_MENU_COLOR_BACKGROUND'' = ''#1e1e2e''
   \<and> Background (readColorsFromConfig (black_background_file ''config'')) = ''#000000''
   \<and> Background (ApplyColorConfig background_env ''config'' black_background_file) = ''#000000''
   \<and> Background (getColorSettings background_env (black_background_file ''config'')) = ''#1e1e2e''
   \<and> Accent (ApplyColorConfig background_env ''config'' black_background_file) = ''#ffffff''"
  by code_simp

end
